theory Spec2Isabelle
  imports Main "HOL-Library.Word"
begin

unbundle bit_operations_syntax

text \<open>
  The development embeds the C sources of the repository: the slab and the bump-pointer
  allocator (\<open>level2/bump_ptr_allocator.c\<close> and its header, and the copy in
  \<open>level1/linked_list_allocator.h\<close>), the two linked lists (\<open>level1/linked_list.c\<close>,
  \<open>level2/linked_list.c\<close>), the queue (\<open>level2/queue.c\<close>) and, of the benchmark
  (\<open>level2/queue_performance.c\<close>), \<open>add_edge\<close> and \<open>breadth_first_search\<close>. Each C function
  is a definition of the same name; a suffix \<open>_l1\<close> marks the level-1 variant where the two
  levels differ. A call returns \<open>Inr\<close> with its result and the new state, or \<open>Inl\<close> with the
  fault that ends it.
\<close>

section \<open>Common types\<close>

text \<open>
  Machine addresses of the bump allocator are 64-bit words (\<open>uintptr_t\<close>), \<open>size_t\<close> is a
  64-bit word and \<open>unsigned int\<close> a 32-bit word. The null pointer is 0.
\<close>

type_synonym addr = "64 word"
type_synonym size_t = "64 word"
type_synonym uint = "32 word"

definition SIZE_MAX :: size_t where
  "SIZE_MAX = - 1"

text \<open>
  Ways in which a call does not return normally: a null pointer is dereferenced, a null
  function pointer is called, an \<open>assert\<close> fails, \<open>exit\<close> is called with a status, or an
  array is indexed outside its block.
\<close>

datatype fault = NullDeref | NullCall | AssertFail | Exit int | OutOfBounds

section \<open>Slab and bump-pointer allocator\<close>

text \<open>
  \<open>bump_ptr_allocator.c\<close> (level 2) and \<open>linked_list_allocator.h\<close> (level 1) hold the same
  functions, statement for statement; the definitions below embed both copies.
\<close>

definition DEFAULT_ALLOC_SIZE_BYTES :: size_t where
  "DEFAULT_ALLOC_SIZE_BYTES = 4096"

definition DEFAULT_NUM_SLABS :: size_t where
  "DEFAULT_NUM_SLABS = 512"

record slab =
  slab_data :: addr
  slab_curr :: addr
  slab_end :: addr
  slab_alloc_size :: size_t

record bump_ptr_allocator =
  slabs :: "slab list"
  slab_ptr :: size_t
  last_alloc_size :: size_t
  total_mem_allocated :: size_t
  initialized :: bool

definition align_to :: "addr \<Rightarrow> size_t \<Rightarrow> addr" where
  "align_to p alignment = (p + alignment - 1) AND NOT (alignment - 1)"

text \<open>
  \<open>slab_init\<close> calls the C library's \<open>malloc\<close>; its answer is the parameter \<open>m\<close> (0 when
  the library has no memory).
\<close>

definition slab_init :: "addr \<Rightarrow> slab \<Rightarrow> size_t \<Rightarrow> bool \<times> slab" where
  "slab_init m slab alloc_size =
     (if m = 0 then (False, slab\<lparr>slab_data := m\<rparr>)
      else (True, slab\<lparr>slab_data := m, slab_curr := m, slab_end := m + alloc_size,
                        slab_alloc_size := alloc_size\<rparr>))"

definition slab_malloc :: "slab \<Rightarrow> size_t \<Rightarrow> addr \<times> slab" where
  "slab_malloc slab sz =
     (let alignment = 8;
          new_alloc = align_to (slab_curr slab) alignment;
          new_alloc_end = new_alloc + sz
      in if new_alloc_end > slab_end slab then (0, slab)
         else (new_alloc, slab\<lparr>slab_curr := new_alloc_end\<rparr>))"

text \<open>A static allocator object: all bytes zero, 512 slab slots.\<close>

definition zero_slab :: slab where
  "zero_slab = \<lparr>slab_data = 0, slab_curr = 0, slab_end = 0, slab_alloc_size = 0\<rparr>"

definition static_allocator :: bump_ptr_allocator where
  "static_allocator =
     \<lparr>slabs = replicate 512 zero_slab, slab_ptr = 0, last_alloc_size = 0,
      total_mem_allocated = 0, initialized = False\<rparr>"

definition bump_ptr_allocator_init ::
  "addr \<Rightarrow> bump_ptr_allocator \<Rightarrow> fault + (bool \<times> bump_ptr_allocator)" where
  "bump_ptr_allocator_init m allocator =
     (if initialized allocator then Inl (Exit (- 1))
      else
        let a1 = allocator\<lparr>initialized := True, slab_ptr := 0,
                           last_alloc_size := DEFAULT_ALLOC_SIZE_BYTES\<rparr>;
            a2 = a1\<lparr>total_mem_allocated := last_alloc_size a1\<rparr>;
            (ok, sl) = slab_init m (slabs a2 ! unat (slab_ptr a2)) (last_alloc_size a2);
            a3 = a2\<lparr>slabs := (slabs a2)[unat (slab_ptr a2) := sl]\<rparr>
        in if \<not> ok then Inr (False, a3) else Inr (True, a3))"

text \<open>
  \<open>bump_ptr_allocator_malloc\<close>: the allocator pointer may be null (\<open>None\<close>); \<open>m\<close> is what
  the C library's \<open>malloc\<close> answers if this call asks it for a new slab.
\<close>

definition bump_ptr_allocator_malloc ::
  "addr \<Rightarrow> bump_ptr_allocator option \<Rightarrow> size_t \<Rightarrow> fault + (addr \<times> bump_ptr_allocator)" where
  "bump_ptr_allocator_malloc m allocator sz =
     (case allocator of
        None \<Rightarrow> Inl (Exit (- 1))
      | Some a \<Rightarrow>
          let (alloc, sl) = slab_malloc (slabs a ! unat (slab_ptr a)) sz;
              a1 = a\<lparr>slabs := (slabs a)[unat (slab_ptr a) := sl]\<rparr>
          in if alloc \<noteq> 0 then Inr (alloc, a1)
             else if slab_ptr a1 + 1 \<ge> DEFAULT_NUM_SLABS then Inr (0, a1)
             else
               let a2 = a1\<lparr>slab_ptr := slab_ptr a1 + 1\<rparr>;
                   a3 = a2\<lparr>last_alloc_size := last_alloc_size a2 * 2\<rparr>;
                   a4 = a3\<lparr>total_mem_allocated := total_mem_allocated a3 + last_alloc_size a3\<rparr>;
                   (ok, sl1) = slab_init m (slabs a4 ! unat (slab_ptr a4)) (last_alloc_size a4);
                   a5 = a4\<lparr>slabs := (slabs a4)[unat (slab_ptr a4) := sl1]\<rparr>
               in if \<not> ok then Inr (0, a5)
                  else
                    let (alloc2, sl2) = slab_malloc (slabs a5 ! unat (slab_ptr a5)) sz;
                        a6 = a5\<lparr>slabs := (slabs a5)[unat (slab_ptr a5) := sl2]\<rparr>
                    in if alloc2 \<noteq> 0 then Inr (slab_curr (slabs a6 ! unat (slab_ptr a6)), a6)
                       else Inr (0, a6))"


section \<open>The heap of list, iterator and queue objects\<close>

text \<open>
  A pointer to a heap block is a block handle; 0 is the null pointer. Each structure type has
  its own table from handles to values. \<open>live\<close> lists the blocks the registered allocator has
  handed out and not taken back. The registered \<open>malloc\<close> is a function from the live blocks
  to the handle it answers (0 when it has no memory); it leaves the memory of the block as it
  is, so a fresh block holds whatever the tables hold there. The registered \<open>free\<close> says what
  remains live. The requested byte count plays no part in this model. Reading through a
  non-null pointer never traps; dereferencing the null pointer is the fault \<open>NullDeref\<close>,
  calling an unset function pointer the fault \<open>NullCall\<close>.
\<close>

type_synonym ptr = nat

text \<open>
  Modelled from the spec: the structures of \<open>linked_list.h\<close> (not among the sources), with
  the fields the functions use. A node is \<open>{value, next}\<close>, a list \<open>{head, tail, size}\<close>
  (the level-1 functions never touch \<open>tail\<close>), an iterator
  \<open>{list, current_index, current_node, cached data}\<close>.
\<close>

record node =
  node_data :: uint
  node_next :: ptr

record linked_list =
  ll_head :: ptr
  ll_tail :: ptr
  ll_size :: size_t

record iterator =
  it_ll :: ptr
  it_current_node :: ptr
  it_current_index :: size_t
  it_data :: uint

record queue =
  q_ll :: ptr

record state =
  nodes :: "ptr \<Rightarrow> node"
  lists :: "ptr \<Rightarrow> linked_list"
  iters :: "ptr \<Rightarrow> iterator"
  queues :: "ptr \<Rightarrow> queue"
  live :: "ptr list"
  ll_malloc_fptr :: "(ptr list \<Rightarrow> ptr) option"
  ll_free_fptr :: "(ptr \<Rightarrow> ptr list \<Rightarrow> ptr list) option"
  q_malloc_fptr :: "(ptr list \<Rightarrow> ptr) option"
  q_free_fptr :: "(ptr \<Rightarrow> ptr list \<Rightarrow> ptr list) option"

definition bindf :: "fault + 'a \<Rightarrow> ('a \<Rightarrow> fault + 'b) \<Rightarrow> fault + 'b" where
  "bindf r f = (case r of Inl e \<Rightarrow> Inl e | Inr x \<Rightarrow> f x)"

definition call_malloc :: "(ptr list \<Rightarrow> ptr) option \<Rightarrow> state \<Rightarrow> fault + (ptr \<times> state)" where
  "call_malloc f s =
     (case f of
        None \<Rightarrow> Inl NullCall
      | Some m \<Rightarrow> (let p = m (live s) in Inr (p, if p = 0 then s else s\<lparr>live := p # live s\<rparr>)))"

definition call_free ::
  "(ptr \<Rightarrow> ptr list \<Rightarrow> ptr list) option \<Rightarrow> ptr \<Rightarrow> state \<Rightarrow> fault + state" where
  "call_free f p s =
     (case f of None \<Rightarrow> Inl NullCall | Some fr \<Rightarrow> Inr (s\<lparr>live := fr p (live s)\<rparr>))"

definition set_node_data :: "ptr \<Rightarrow> uint \<Rightarrow> state \<Rightarrow> state" where
  "set_node_data p v s = s\<lparr>nodes := (nodes s)(p := (nodes s p)\<lparr>node_data := v\<rparr>)\<rparr>"

definition set_node_next :: "ptr \<Rightarrow> ptr \<Rightarrow> state \<Rightarrow> state" where
  "set_node_next p v s = s\<lparr>nodes := (nodes s)(p := (nodes s p)\<lparr>node_next := v\<rparr>)\<rparr>"

definition set_ll_head :: "ptr \<Rightarrow> ptr \<Rightarrow> state \<Rightarrow> state" where
  "set_ll_head ll v s = s\<lparr>lists := (lists s)(ll := (lists s ll)\<lparr>ll_head := v\<rparr>)\<rparr>"

definition set_ll_tail :: "ptr \<Rightarrow> ptr \<Rightarrow> state \<Rightarrow> state" where
  "set_ll_tail ll v s = s\<lparr>lists := (lists s)(ll := (lists s ll)\<lparr>ll_tail := v\<rparr>)\<rparr>"

definition set_ll_size :: "ptr \<Rightarrow> size_t \<Rightarrow> state \<Rightarrow> state" where
  "set_ll_size ll v s = s\<lparr>lists := (lists s)(ll := (lists s ll)\<lparr>ll_size := v\<rparr>)\<rparr>"

section \<open>Functions shared by both list variants\<close>

text \<open>
  \<open>linked_list_size\<close>, \<open>linked_list_find\<close> and \<open>linked_list_insert_end\<close> have the same text
  in the level-1 and the level-2 \<open>linked_list.c\<close>.
\<close>

definition linked_list_size :: "state \<Rightarrow> ptr \<Rightarrow> size_t" where
  "linked_list_size s ll = (if ll = 0 then SIZE_MAX else ll_size (lists s ll))"

text \<open>
  The scan of \<open>linked_list_find\<close> runs until it meets the value or the null pointer; on a
  chain that holds neither it does not return, which is the value \<open>None\<close>.
\<close>

partial_function (option) find_loop :: "state \<Rightarrow> ptr \<Rightarrow> size_t \<Rightarrow> uint \<Rightarrow> size_t option" where
  "find_loop s cur i d =
     (if cur = 0 then Some SIZE_MAX
      else if node_data (nodes s cur) = d then Some i
      else find_loop s (node_next (nodes s cur)) (i + 1) d)"

declare find_loop.simps [code]

definition linked_list_find :: "state \<Rightarrow> ptr \<Rightarrow> uint \<Rightarrow> size_t option" where
  "linked_list_find s ll d =
     (if ll = 0 then Some SIZE_MAX else find_loop s (ll_head (lists s ll)) 0 d)"

section \<open>Linked list, level 2 (head and tail)\<close>

definition linked_list_create :: "state \<Rightarrow> fault + (ptr \<times> state)" where
  "linked_list_create s =
     bindf (call_malloc (ll_malloc_fptr s) s) (\<lambda>(empty_list, s1).
       if empty_list \<noteq> 0
       then Inr (empty_list,
                 set_ll_size empty_list 0 (set_ll_tail empty_list 0 (set_ll_head empty_list 0 s1)))
       else Inr (empty_list, s1))"

text \<open>The loop \<open>while (i-- > 0) cur = cur->next\<close>.\<close>

fun walk_next :: "(ptr \<Rightarrow> node) \<Rightarrow> ptr \<Rightarrow> nat \<Rightarrow> fault + ptr" where
  "walk_next h cur 0 = Inr cur"
| "walk_next h cur (Suc i) =
     (if cur = 0 then Inl NullDeref else walk_next h (node_next (h cur)) i)"

text \<open>
  \<open>_linked_list_init_iterator\<close> fills an iterator the caller provides. \<open>init_iterator_value\<close>
  is the value it computes; \<open>linked_list_init_iterator\<close> is the call on a heap iterator, with
  the assertion that the iterator is not null. \<open>linked_list_insert\<close> and \<open>linked_list_remove\<close>
  pass the address of a local variable, which is never null.
\<close>

definition init_iterator_value :: "state \<Rightarrow> ptr \<Rightarrow> size_t \<Rightarrow> fault + iterator" where
  "init_iterator_value s ll index =
     (if ll = 0 then Inl NullDeref
      else bindf (walk_next (nodes s) (ll_head (lists s ll)) (unat index)) (\<lambda>cur.
        if cur = 0 then Inl NullDeref
        else Inr \<lparr>it_ll = ll, it_current_node = cur, it_current_index = index,
                  it_data = node_data (nodes s cur)\<rparr>))"

definition linked_list_init_iterator :: "state \<Rightarrow> ptr \<Rightarrow> ptr \<Rightarrow> size_t \<Rightarrow> fault + state" where
  "linked_list_init_iterator s iter ll index =
     (if iter = 0 then Inl AssertFail
      else bindf (init_iterator_value s ll index) (\<lambda>v. Inr (s\<lparr>iters := (iters s)(iter := v)\<rparr>)))"

definition linked_list_insert :: "state \<Rightarrow> ptr \<Rightarrow> size_t \<Rightarrow> uint \<Rightarrow> fault + (bool \<times> state)" where
  "linked_list_insert s ll index d =
     (let ll_sz = linked_list_size s ll in
      if ll = 0 \<or> ll_sz < index then Inr (False, s)
      else bindf (call_malloc (ll_malloc_fptr s) s) (\<lambda>(new_node, s1).
        if new_node = 0 then Inl NullDeref
        else
          let s2 = set_node_data new_node d s1 in
          bindf
            (if index = 0 then
               let s3 = set_node_next new_node (ll_head (lists s2 ll)) s2;
                   s4 = set_ll_head ll new_node s3
               in Inr (if ll_sz = 0 then set_ll_tail ll (ll_head (lists s4 ll)) s4 else s4)
             else if index = ll_sz then
               (if ll_tail (lists s2 ll) = 0 then Inl NullDeref
                else Inr (set_ll_tail ll new_node
                            (set_node_next (ll_tail (lists s2 ll)) new_node s2)))
             else
               bindf (init_iterator_value s2 ll (index - 1)) (\<lambda>iter.
                 let prev = it_current_node iter in
                 if prev = 0 then Inl NullDeref
                 else Inr (set_node_next prev new_node
                             (set_node_next new_node (node_next (nodes s2 prev)) s2))))
            (\<lambda>s5. Inr (True, set_ll_size ll (ll_size (lists s5 ll) + 1) s5))))"

definition linked_list_insert_end :: "state \<Rightarrow> ptr \<Rightarrow> uint \<Rightarrow> fault + (bool \<times> state)" where
  "linked_list_insert_end s ll d =
     (if ll \<noteq> 0 then linked_list_insert s ll (linked_list_size s ll) d else Inr (False, s))"

definition linked_list_insert_front :: "state \<Rightarrow> ptr \<Rightarrow> uint \<Rightarrow> fault + (bool \<times> state)" where
  "linked_list_insert_front s ll d = linked_list_insert s ll 0 d"

definition linked_list_remove :: "state \<Rightarrow> ptr \<Rightarrow> size_t \<Rightarrow> fault + (bool \<times> state)" where
  "linked_list_remove s ll index =
     (if ll = 0 \<or> linked_list_size s ll \<le> index then Inr (False, s)
      else
        bindf
          (if index = 0 then
             let to_remove = ll_head (lists s ll) in
             if to_remove = 0 then Inl NullDeref
             else call_free (ll_free_fptr s) to_remove
                    (set_ll_head ll (node_next (nodes s to_remove)) s)
           else
             bindf (init_iterator_value s ll (index - 1)) (\<lambda>iter.
               let prev = it_current_node iter in
               if prev = 0 then Inl NullDeref
               else
                 let to_remove = node_next (nodes s prev) in
                 if to_remove = 0 then Inl NullDeref
                 else
                   let s1 = set_node_next prev (node_next (nodes s to_remove)) s;
                       s2 = (if ll_tail (lists s1 ll) = to_remove then set_ll_tail ll prev s1
                             else s1)
                   in call_free (ll_free_fptr s2) to_remove s2))
          (\<lambda>s3. Inr (True, set_ll_size ll (ll_size (lists s3 ll) - 1) s3)))"

definition linked_list_create_iterator :: "state \<Rightarrow> ptr \<Rightarrow> size_t \<Rightarrow> fault + (ptr \<times> state)" where
  "linked_list_create_iterator s ll index =
     (if ll = 0 \<or> linked_list_size s ll \<le> index then Inr (0, s)
      else bindf (call_malloc (ll_malloc_fptr s) s) (\<lambda>(iter, s1).
        bindf (linked_list_init_iterator s1 iter ll index) (\<lambda>s2. Inr (iter, s2))))"

text \<open>
  \<open>linked_list_delete\<close> frees every node up to the first null link; on a chain without one it
  does not return (\<open>None\<close>).
\<close>

partial_function (option) delete_loop :: "state \<Rightarrow> ptr \<Rightarrow> (fault + state) option" where
  "delete_loop s cur =
     (if cur = 0 then Some (Inr s)
      else
        (case call_free (ll_free_fptr s) cur s of
           Inl e \<Rightarrow> Some (Inl e)
         | Inr s1 \<Rightarrow> delete_loop s1 (node_next (nodes s cur))))"

declare delete_loop.simps [code]

definition linked_list_delete :: "state \<Rightarrow> ptr \<Rightarrow> (fault + (bool \<times> state)) option" where
  "linked_list_delete s ll =
     (if ll = 0 then Some (Inr (False, s))
      else
        (case delete_loop s (ll_head (lists s ll)) of
           None \<Rightarrow> None
         | Some (Inl e) \<Rightarrow> Some (Inl e)
         | Some (Inr s1) \<Rightarrow>
             Some (bindf (call_free (ll_free_fptr s1) ll s1) (\<lambda>s2. Inr (True, s2)))))"


section \<open>Linked list, level 1 (head only)\<close>

definition linked_list_create_l1 :: "state \<Rightarrow> fault + (ptr \<times> state)" where
  "linked_list_create_l1 s =
     (if ll_malloc_fptr s = None \<or> ll_free_fptr s = None then Inr (0, s)
      else bindf (call_malloc (ll_malloc_fptr s) s) (\<lambda>(empty_list, s1).
        if empty_list \<noteq> 0
        then Inr (empty_list, set_ll_size empty_list 0 (set_ll_head empty_list 0 s1))
        else Inr (empty_list, s1)))"

text \<open>The loop \<open>while (index-- != 0) { prev = curr; curr = curr->next; }\<close>.\<close>

fun walk_prev :: "(ptr \<Rightarrow> node) \<Rightarrow> ptr \<Rightarrow> ptr \<Rightarrow> nat \<Rightarrow> fault + (ptr \<times> ptr)" where
  "walk_prev h prev cur 0 = Inr (prev, cur)"
| "walk_prev h prev cur (Suc i) =
     (if cur = 0 then Inl NullDeref else walk_prev h cur (node_next (h cur)) i)"

definition linked_list_insert_l1 ::
  "state \<Rightarrow> ptr \<Rightarrow> size_t \<Rightarrow> uint \<Rightarrow> fault + (bool \<times> state)" where
  "linked_list_insert_l1 s ll index d =
     (if ll = 0 \<or> linked_list_size s ll < index then Inr (False, s)
      else
        bindf (walk_prev (nodes s) 0 (ll_head (lists s ll)) (unat index)) (\<lambda>(prev, cur).
        bindf (call_malloc (ll_malloc_fptr s) s) (\<lambda>(new_node, s1).
          if new_node = 0 then Inl NullDeref
          else
            let s2 = set_node_next new_node 0 (set_node_data new_node d s1);
                s3 = (if ll_head (lists s2 ll) = 0 then set_ll_head ll new_node s2
                      else if prev \<noteq> 0 then
                        set_node_next prev new_node
                          (set_node_next new_node (node_next (nodes s2 prev)) s2)
                      else
                        set_ll_head ll new_node
                          (set_node_next new_node (ll_head (lists s2 ll)) s2))
            in Inr (True, set_ll_size ll (ll_size (lists s3 ll) + 1) s3))))"

definition linked_list_insert_end_l1 :: "state \<Rightarrow> ptr \<Rightarrow> uint \<Rightarrow> fault + (bool \<times> state)" where
  "linked_list_insert_end_l1 s ll d =
     (if ll \<noteq> 0 then linked_list_insert_l1 s ll (linked_list_size s ll) d else Inr (False, s))"

definition linked_list_create_iterator_l1 ::
  "state \<Rightarrow> ptr \<Rightarrow> size_t \<Rightarrow> fault + (ptr \<times> state)" where
  "linked_list_create_iterator_l1 s ll index =
     (if ll = 0 \<or> linked_list_size s ll \<le> index then Inr (0, s)
      else bindf (call_malloc (ll_malloc_fptr s) s) (\<lambda>(iter, s1).
        if iter = 0 then Inl NullDeref
        else
          let it0 = (iters s1 iter)\<lparr>it_ll := ll, it_current_index := index\<rparr> in
          if index = 0 then
            (if ll_head (lists s1 ll) = 0 then Inl NullDeref
             else Inr (iter, s1\<lparr>iters := (iters s1)(iter :=
                         it0\<lparr>it_current_node := ll_head (lists s1 ll),
                             it_data := node_data (nodes s1 (ll_head (lists s1 ll)))\<rparr>)\<rparr>))
          else
            bindf (walk_prev (nodes s1) 0 (ll_head (lists s1 ll)) (unat index)) (\<lambda>(prev, cur).
              if prev = 0 then Inl NullDeref
              else Inr (iter, s1\<lparr>iters := (iters s1)(iter :=
                          it0\<lparr>it_current_node := prev,
                              it_data := node_data (nodes s1 prev)\<rparr>)\<rparr>))))"

section \<open>Queue\<close>

text \<open>
  \<open>queue.c\<close> keeps function pointers of its own (\<open>q_malloc_fptr\<close>, \<open>q_free_fptr\<close>). The output
  parameter \<open>popped_data\<close> is modelled by passing the old content of the caller's variable and
  returning the new one.
\<close>

definition queue_create :: "state \<Rightarrow> fault + (ptr \<times> state)" where
  "queue_create s =
     bindf (call_malloc (q_malloc_fptr s) s) (\<lambda>(queue, s1).
       if queue \<noteq> 0
       then bindf (linked_list_create s1) (\<lambda>(l, s2).
              Inr (queue, s2\<lparr>queues := (queues s2)(queue := (queues s2 queue)\<lparr>q_ll := l\<rparr>)\<rparr>))
       else Inr (queue, s1))"

definition queue_delete :: "state \<Rightarrow> ptr \<Rightarrow> (fault + (bool \<times> state)) option" where
  "queue_delete s queue =
     (if queue = 0 then Some (Inr (False, s))
      else
        (case linked_list_delete s (q_ll (queues s queue)) of
           None \<Rightarrow> None
         | Some (Inl e) \<Rightarrow> Some (Inl e)
         | Some (Inr (r, s1)) \<Rightarrow>
             Some (bindf (call_free (q_free_fptr s1) queue s1) (\<lambda>s2. Inr (True, s2)))))"

definition queue_push :: "state \<Rightarrow> ptr \<Rightarrow> uint \<Rightarrow> fault + (bool \<times> state)" where
  "queue_push s queue d =
     (if queue = 0 then Inr (False, s) else linked_list_insert_end s (q_ll (queues s queue)) d)"

definition queue_size :: "state \<Rightarrow> ptr \<Rightarrow> size_t" where
  "queue_size s queue =
     (if queue = 0 then SIZE_MAX else linked_list_size s (q_ll (queues s queue)))"

definition queue_has_next :: "state \<Rightarrow> ptr \<Rightarrow> bool" where
  "queue_has_next s queue = (if queue = 0 then False else queue_size s queue > 0)"

definition queue_next :: "state \<Rightarrow> ptr \<Rightarrow> uint \<Rightarrow> fault + (bool \<times> uint \<times> state)" where
  "queue_next s queue popped_data =
     (if \<not> queue_has_next s queue then Inr (False, popped_data, s)
      else bindf (linked_list_create_iterator s (q_ll (queues s queue)) 0) (\<lambda>(iter, s1).
        if iter = 0 then Inr (False, popped_data, s1)
        else Inr (True, it_data (iters s1 iter), s1)))"

definition queue_pop :: "state \<Rightarrow> ptr \<Rightarrow> uint \<Rightarrow> fault + (bool \<times> uint \<times> state)" where
  "queue_pop s queue popped_data =
     (if queue = 0 then Inr (False, popped_data, s)
      else bindf (queue_next s queue popped_data) (\<lambda>(ok, d, s1).
        if \<not> ok then Inr (False, d, s1)
        else bindf (linked_list_remove s1 (q_ll (queues s1 queue)) 0) (\<lambda>(r, s2).
          Inr (r, d, s2))))"

section \<open>Graph rows and breadth-first search\<close>

text \<open>
  \<open>rows\<close> is an array of row pointers; a null entry is \<open>None\<close>. The adjacency array of a row
  is the list of the slots of its block. Indexing \<open>rows\<close> or an adjacency array outside its
  block is the fault \<open>OutOfBounds\<close>.
\<close>

record row =
  row_size :: size_t
  adjacent_nodes :: "uint list"
  visited :: bool

text \<open>
  \<open>add_edge\<close> asks the C library for memory: \<open>libc k\<close> tells whether the \<open>k\<close>-th request of
  the call is granted, \<open>junk\<close> is the indeterminate content of fresh slots. A refused
  \<open>realloc\<close> leaves a null array pointer, which the next statement writes through.
\<close>

text \<open>
  \<open>realloc_slots sz\<close> is the number of \<open>unsigned int\<close> slots (4 bytes each) of the block
  that \<open>realloc\<close> returns for \<open>(size + 1 + 16) * sizeof(unsigned int)\<close> bytes, computed in
  \<open>size_t\<close>.
\<close>

definition realloc_slots :: "size_t \<Rightarrow> nat" where
  "realloc_slots sz = unat ((sz + 1 + 16) * 4) div 4"

definition add_edge ::
  "(nat \<Rightarrow> bool) \<Rightarrow> (nat \<Rightarrow> uint) \<Rightarrow> row option list \<Rightarrow> uint \<Rightarrow> uint
     \<Rightarrow> fault + row option list" where
  "add_edge libc junk rows i j =
     (if unat i \<ge> length rows then Inl OutOfBounds
      else
        (case rows ! unat i of
           None \<Rightarrow>
             if \<not> libc 0 then Inl (Exit 1)
             else if \<not> libc 1 then Inl (Exit 1)
             else Inr (rows[unat i := Some \<lparr>row_size = 1,
                                             adjacent_nodes = (map junk [0..<16])[0 := j],
                                             visited = False\<rparr>])
         | Some r \<Rightarrow>
             let sz = row_size r;
                 grow = (sz mod 16 = 15);
                 arr = (if grow
                        then take (realloc_slots sz) (adjacent_nodes r)
                             @ map junk [length (adjacent_nodes r)..<realloc_slots sz]
                        else adjacent_nodes r)
             in if grow \<and> \<not> libc 0 then Inl NullDeref
                else if unat sz \<ge> length arr then Inl OutOfBounds
                else Inr (rows[unat i := Some (r\<lparr>adjacent_nodes := arr[unat sz := j],
                                                  row_size := sz + 1\<rparr>)])))"

text \<open>The \<open>for\<close> loop of \<open>breadth_first_search\<close> over the adjacency array of one row:
  \<open>k\<close> iterations remain, \<open>n\<close> is the loop index. The first component of the result tells
  whether every push succeeded.\<close>

fun bfs_row_loop ::
  "row \<Rightarrow> uint \<Rightarrow> ptr \<Rightarrow> nat \<Rightarrow> nat \<Rightarrow> bool \<Rightarrow> state \<Rightarrow> fault + (bool \<times> bool \<times> state)" where
  "bfs_row_loop r j queue 0 n found_path s = Inr (True, found_path, s)"
| "bfs_row_loop r j queue (Suc k) n found_path s =
     (if n \<ge> length (adjacent_nodes r) then Inl OutOfBounds
      else
        let d = adjacent_nodes r ! n;
            found = (if j = d then True else found_path)
        in bindf (queue_push s queue d) (\<lambda>(sanity, s1).
             if \<not> sanity then Inr (False, found, s1)
             else bfs_row_loop r j queue k (Suc n) found s1))"

text \<open>
  The \<open>while\<close> loop. Its result is \<open>(returned, found_path, node_count, rows, state)\<close>, where
  \<open>returned\<close> tells that the loop was left by \<open>return 1\<close> after a failed push. A loop that
  does not end is \<open>None\<close>.
\<close>

partial_function (option) bfs_loop ::
  "row option list \<Rightarrow> state \<Rightarrow> ptr \<Rightarrow> uint \<Rightarrow> bool \<Rightarrow> uint \<Rightarrow> size_t
     \<Rightarrow> (fault + (bool \<times> bool \<times> size_t \<times> row option list \<times> state)) option" where
  "bfs_loop rows s queue j found_path next_node node_count =
     (if found_path then Some (Inr (False, found_path, node_count, rows, s))
      else if unat next_node \<ge> length rows then Some (Inl OutOfBounds)
      else
        (case (case rows ! unat next_node of None \<Rightarrow> None
               | Some r \<Rightarrow> if visited r then None else Some r) of
           None \<Rightarrow>
             (case queue_pop s queue next_node of
                Inl e \<Rightarrow> Some (Inl e)
              | Inr (not_done, next_node1, s1) \<Rightarrow>
                  if \<not> not_done then Some (Inr (False, found_path, node_count + 1, rows, s1))
                  else bfs_loop rows s1 queue j found_path next_node1 (node_count + 1))
         | Some r \<Rightarrow>
             (let r1 = r\<lparr>visited := True\<rparr>;
                  rows1 = rows[unat next_node := Some r1]
              in case bfs_row_loop r1 j queue (unat (row_size r1)) 0 found_path s of
                   Inl e \<Rightarrow> Some (Inl e)
                 | Inr (sanity, found, s1) \<Rightarrow>
                     if \<not> sanity then Some (Inr (True, found, node_count, rows1, s1))
                     else
                       (case queue_pop s1 queue next_node of
                          Inl e \<Rightarrow> Some (Inl e)
                        | Inr (full, next_node1, s2) \<Rightarrow>
                            if \<not> full then Some (Inr (False, found, node_count, rows1, s2))
                            else bfs_loop rows1 s2 queue j found next_node1 (node_count + 1)))))"

declare bfs_loop.simps [code]

text \<open>
  \<open>breadth_first_search\<close> returns the flag and prints the node count; after \<open>return 1\<close> the
  result is true and nothing is printed (\<open>None\<close> as count). Clock, alarm and the printed
  timing figures are left out.
\<close>

definition breadth_first_search ::
  "row option list \<Rightarrow> state \<Rightarrow> uint \<Rightarrow> uint
     \<Rightarrow> (fault + (bool \<times> size_t option \<times> row option list \<times> state)) option" where
  "breadth_first_search rows s i j =
     (case queue_create s of
        Inl e \<Rightarrow> Some (Inl e)
      | Inr (queue, s1) \<Rightarrow>
          (case bfs_loop rows s1 queue j False i 0 of
             None \<Rightarrow> None
           | Some (Inl e) \<Rightarrow> Some (Inl e)
           | Some (Inr (returned, found_path, node_count, rows1, s2)) \<Rightarrow>
               if returned then Some (Inr (True, None, rows1, s2))
               else
                 (case queue_delete s2 queue of
                    None \<Rightarrow> None
                  | Some (Inl e) \<Rightarrow> Some (Inl e)
                  | Some (Inr (r, s3)) \<Rightarrow> Some (Inr (found_path, Some node_count, rows1, s3)))))"

section \<open>Registration and the state at program start\<close>

text \<open>The registration functions store the function pointer they are given (\<open>None\<close>: null).\<close>

definition linked_list_register_malloc ::
  "state \<Rightarrow> (ptr list \<Rightarrow> ptr) option \<Rightarrow> bool \<times> state" where
  "linked_list_register_malloc s m = (True, s\<lparr>ll_malloc_fptr := m\<rparr>)"

definition linked_list_register_free ::
  "state \<Rightarrow> (ptr \<Rightarrow> ptr list \<Rightarrow> ptr list) option \<Rightarrow> bool \<times> state" where
  "linked_list_register_free s f = (True, s\<lparr>ll_free_fptr := f\<rparr>)"

definition queue_register_malloc :: "state \<Rightarrow> (ptr list \<Rightarrow> ptr) option \<Rightarrow> bool \<times> state" where
  "queue_register_malloc s m =
     (let s1 = s\<lparr>q_malloc_fptr := m\<rparr>; (r, s2) = linked_list_register_malloc s1 m
      in (True, s2))"

definition queue_register_free ::
  "state \<Rightarrow> (ptr \<Rightarrow> ptr list \<Rightarrow> ptr list) option \<Rightarrow> bool \<times> state" where
  "queue_register_free s f =
     (let s1 = s\<lparr>q_free_fptr := f\<rparr>; (r, s2) = linked_list_register_free s1 f
      in (True, s2))"

text \<open>
  At program start the four static function pointers are null and nothing is allocated. The
  content of the node memory, \<open>h\<close>, is arbitrary; the other tables are written before they
  are read.
\<close>

definition program_start :: "(ptr \<Rightarrow> node) \<Rightarrow> state" where
  "program_start h =
     \<lparr>nodes = h,
      lists = (\<lambda>_. \<lparr>ll_head = 0, ll_tail = 0, ll_size = 0\<rparr>),
      iters = (\<lambda>_. \<lparr>it_ll = 0, it_current_node = 0, it_current_index = 0, it_data = 0\<rparr>),
      queues = (\<lambda>_. \<lparr>q_ll = 0\<rparr>),
      live = [],
      ll_malloc_fptr = None, ll_free_fptr = None,
      q_malloc_fptr = None, q_free_fptr = None\<rparr>"

text \<open>
  Allocators to register: \<open>fresh_malloc\<close> always answers a block above all live ones;
  \<open>one_shot_malloc\<close> has memory for a single block; \<open>plain_free\<close> takes the block back;
  \<open>custom_free\<close> is the no-op of \<open>bump_ptr_allocator.c\<close>.
\<close>

definition fresh_malloc :: "ptr list \<Rightarrow> ptr" where
  "fresh_malloc L = fold max L 0 + 1"

definition one_shot_malloc :: "ptr list \<Rightarrow> ptr" where
  "one_shot_malloc L = (if L = [] then 1 else 0)"

definition plain_free :: "ptr \<Rightarrow> ptr list \<Rightarrow> ptr list" where
  "plain_free p L = removeAll p L"

definition custom_free :: "ptr \<Rightarrow> ptr list \<Rightarrow> ptr list" where
  "custom_free p L = L"

definition registered ::
  "(ptr list \<Rightarrow> ptr) option \<Rightarrow> (ptr \<Rightarrow> ptr list \<Rightarrow> ptr list) option \<Rightarrow> (ptr \<Rightarrow> node) \<Rightarrow> state" where
  "registered m f h =
     snd (queue_register_free (snd (queue_register_malloc (program_start h) m)) f)"

section \<open>Chains, well-formed lists and well-behaved allocators\<close>

text \<open>
  \<open>first_nodes h p n\<close> lists the \<open>n\<close> pointers met from \<open>p\<close> on by following \<open>next\<close>, and
  \<open>nth_link h p n\<close> is the pointer reached after \<open>n\<close> steps. The nodes of a list are the first
  \<open>size\<close> pointers from \<open>head\<close>, its values their data.
\<close>

fun first_nodes :: "(ptr \<Rightarrow> node) \<Rightarrow> ptr \<Rightarrow> nat \<Rightarrow> ptr list" where
  "first_nodes h p 0 = []"
| "first_nodes h p (Suc n) = p # first_nodes h (node_next (h p)) n"

fun nth_link :: "(ptr \<Rightarrow> node) \<Rightarrow> ptr \<Rightarrow> nat \<Rightarrow> ptr" where
  "nth_link h p 0 = p"
| "nth_link h p (Suc n) = nth_link h (node_next (h p)) n"

definition ll_nodes :: "state \<Rightarrow> ptr \<Rightarrow> ptr list" where
  "ll_nodes s ll = first_nodes (nodes s) (ll_head (lists s ll)) (unat (ll_size (lists s ll)))"

definition ll_values :: "state \<Rightarrow> ptr \<Rightarrow> uint list" where
  "ll_values s ll = map (\<lambda>p. node_data (nodes s p)) (ll_nodes s ll)"

text \<open>
  A list is usable when it is not null and its nodes are distinct live blocks, none of them
  null. The level-1 functions also need the link after the last node to be null; the level-2
  functions need \<open>tail\<close> to be the last node of a non-empty list.
\<close>

definition list_blocks_ok :: "state \<Rightarrow> ptr \<Rightarrow> bool" where
  "list_blocks_ok s ll \<longleftrightarrow>
     ll \<noteq> 0 \<and> distinct (ll_nodes s ll) \<and> 0 \<notin> set (ll_nodes s ll) \<and>
     set (ll_nodes s ll) \<subseteq> set (live s)"

definition ends_null :: "state \<Rightarrow> ptr \<Rightarrow> bool" where
  "ends_null s ll \<longleftrightarrow>
     nth_link (nodes s) (ll_head (lists s ll)) (unat (ll_size (lists s ll))) = 0"

definition wf_l1 :: "state \<Rightarrow> ptr \<Rightarrow> bool" where
  "wf_l1 s ll \<longleftrightarrow> list_blocks_ok s ll \<and> ends_null s ll"

definition wf_l2 :: "state \<Rightarrow> ptr \<Rightarrow> bool" where
  "wf_l2 s ll \<longleftrightarrow>
     list_blocks_ok s ll \<and>
     (ll_nodes s ll = [] \<or> ll_tail (lists s ll) = last (ll_nodes s ll))"

text \<open>
  A well-behaved \<open>malloc\<close> answers a block that is neither null nor live; a well-behaved
  \<open>free\<close> takes back at most the block it is given. \<open>next_block\<close> is the next answer of the
  list module's \<open>malloc\<close> and \<open>fresh_answer\<close> says that it is such a block.
  \<open>good_alloc\<close> says that both registered functions of the list module are well-behaved,
  whatever is live; \<open>good_queue_alloc\<close> says the same of the queue module's.
\<close>

definition good_malloc :: "(ptr list \<Rightarrow> ptr) \<Rightarrow> bool" where
  "good_malloc m \<longleftrightarrow> (\<forall>L. m L \<noteq> 0 \<and> m L \<notin> set L)"

definition good_free :: "(ptr \<Rightarrow> ptr list \<Rightarrow> ptr list) \<Rightarrow> bool" where
  "good_free f \<longleftrightarrow> (\<forall>p L. set L - {p} \<subseteq> set (f p L) \<and> set (f p L) \<subseteq> set L)"

definition next_block :: "state \<Rightarrow> ptr" where
  "next_block s = (case ll_malloc_fptr s of None \<Rightarrow> 0 | Some m \<Rightarrow> m (live s))"

definition fresh_answer :: "state \<Rightarrow> bool" where
  "fresh_answer s \<longleftrightarrow>
     ll_malloc_fptr s \<noteq> None \<and> next_block s \<noteq> 0 \<and> next_block s \<notin> set (live s)"

definition good_alloc :: "state \<Rightarrow> bool" where
  "good_alloc s \<longleftrightarrow>
     (\<exists>m f. ll_malloc_fptr s = Some m \<and> good_malloc m \<and> ll_free_fptr s = Some f \<and> good_free f)"

definition good_queue_alloc :: "state \<Rightarrow> bool" where
  "good_queue_alloc s \<longleftrightarrow>
     (\<exists>m f. q_malloc_fptr s = Some m \<and> good_malloc m \<and> q_free_fptr s = Some f \<and> good_free f)"

definition queue_ok :: "state \<Rightarrow> ptr \<Rightarrow> bool" where
  "queue_ok s queue \<longleftrightarrow> queue \<noteq> 0 \<and> wf_l2 s (q_ll (queues s queue))"

definition queue_values :: "state \<Rightarrow> ptr \<Rightarrow> uint list" where
  "queue_values s queue = ll_values s (q_ll (queues s queue))"

text \<open>
  \<open>linked_at s ll index d s1\<close> describes state \<open>s1\<close> as \<open>s\<close> with one node linked into list
  \<open>ll\<close> at position \<open>index\<close>: the block that \<open>malloc\<close> answers in \<open>s\<close> is live in \<open>s1\<close> and
  holds \<open>d\<close>; following \<open>next\<close> from the head of \<open>s1\<close> for one step more than the size in
  \<open>s\<close> meets the nodes of \<open>s\<close> in their order with that block before the node that was at
  \<open>index\<close>; the nodes of \<open>s\<close> hold the values they held; the size is one more.
\<close>

definition linked_at :: "state \<Rightarrow> ptr \<Rightarrow> size_t \<Rightarrow> uint \<Rightarrow> state \<Rightarrow> bool" where
  "linked_at s ll index d s1 \<longleftrightarrow>
     live s1 = next_block s # live s \<and>
     ll_size (lists s1 ll) = ll_size (lists s ll) + 1 \<and>
     first_nodes (nodes s1) (ll_head (lists s1 ll)) (Suc (unat (ll_size (lists s ll)))) =
       take (unat index) (ll_nodes s ll) @ next_block s # drop (unat index) (ll_nodes s ll) \<and>
     node_data (nodes s1 (next_block s)) = d \<and>
     map (\<lambda>p. node_data (nodes s1 p)) (ll_nodes s ll) = ll_values s ll"

text \<open>
  Runs of queue calls: \<open>push_all\<close> pushes the values of a list in order and collects the
  results of the calls; \<open>pop_n\<close> pops \<open>k\<close> times into a variable that holds 0 and collects,
  for each call, its result, the content of the variable and \<open>queue_size\<close> afterwards.
\<close>

fun push_all :: "state \<Rightarrow> ptr \<Rightarrow> uint list \<Rightarrow> fault + (bool list \<times> state)" where
  "push_all s queue [] = Inr ([], s)"
| "push_all s queue (v # vs) =
     bindf (queue_push s queue v) (\<lambda>(r, s1).
       bindf (push_all s1 queue vs) (\<lambda>(rs, s2). Inr (r # rs, s2)))"

fun pop_n :: "state \<Rightarrow> ptr \<Rightarrow> nat \<Rightarrow> fault + ((bool \<times> uint \<times> size_t) list \<times> state)" where
  "pop_n s queue 0 = Inr ([], s)"
| "pop_n s queue (Suc k) =
     bindf (queue_pop s queue 0) (\<lambda>(r, d, s1).
       bindf (pop_n s1 queue k) (\<lambda>(rs, s2). Inr ((r, d, queue_size s1 queue) # rs, s2)))"

section \<open>Concrete lists for examples\<close>

text \<open>
  \<open>ready\<close> is the state after registering \<open>fresh_malloc\<close> and \<open>plain_free\<close> at program start
  with all node memory zero. \<open>outcome_state\<close> reads the state a call returned. The first
  block handed out is block 1: \<open>list_of_5_l2\<close> is the state in which block 1 is a level-2
  list holding the single value 5, \<open>list_of_5_l1\<close> the same for level 1, and
  \<open>list_of_5_7\<close> is \<open>list_of_5_l2\<close> after \<open>insert_end\<close> of the value 7.
\<close>

definition zero_nodes :: "ptr \<Rightarrow> node" where
  "zero_nodes p = \<lparr>node_data = 0, node_next = 0\<rparr>"

definition ready :: state where
  "ready = registered (Some fresh_malloc) (Some plain_free) zero_nodes"

definition outcome_state :: "fault + ('a \<times> state) \<Rightarrow> state" where
  "outcome_state r = (case r of Inl e \<Rightarrow> program_start zero_nodes | Inr (x, s) \<Rightarrow> s)"

definition list_of_5_l2 :: state where
  "list_of_5_l2 =
     outcome_state (linked_list_insert_end (outcome_state (linked_list_create ready)) 1 5)"

definition list_of_5_l1 :: state where
  "list_of_5_l1 =
     outcome_state (linked_list_insert_end_l1 (outcome_state (linked_list_create_l1 ready)) 1 5)"

definition list_of_5_7 :: state where
  "list_of_5_7 = outcome_state (linked_list_insert_end list_of_5_l2 1 7)"

text \<open>
  \<open>insert_end\<close> followed by \<open>find\<close> of the same value: the size before the insertion and
  what \<open>find\<close> returns (\<open>None\<close> inside: it does not return), or \<open>None\<close> when the insertion does
  not return true.
\<close>

definition insert_end_then_find_l1 ::
  "state \<Rightarrow> ptr \<Rightarrow> uint \<Rightarrow> (size_t \<times> size_t option) option" where
  "insert_end_then_find_l1 s ll d =
     (case linked_list_insert_end_l1 s ll d of
        Inl e \<Rightarrow> None
      | Inr (r, s') \<Rightarrow> if r then Some (linked_list_size s ll, linked_list_find s' ll d) else None)"

definition insert_end_then_find_l2 ::
  "state \<Rightarrow> ptr \<Rightarrow> uint \<Rightarrow> (size_t \<times> size_t option) option" where
  "insert_end_then_find_l2 s ll d =
     (case linked_list_insert_end s ll d of
        Inl e \<Rightarrow> None
      | Inr (r, s') \<Rightarrow> if r then Some (linked_list_size s ll, linked_list_find s' ll d) else None)"

text \<open>
  \<open>exhausted_malloc\<close> has no memory left; \<open>list_of_5_exhausted\<close> is \<open>list_of_5_l2\<close> with
  that allocator registered in the list module.
\<close>

definition exhausted_malloc :: "ptr list \<Rightarrow> ptr" where
  "exhausted_malloc L = 0"

definition list_of_5_exhausted :: state where
  "list_of_5_exhausted = snd (linked_list_register_malloc list_of_5_l2 (Some exhausted_malloc))"

section \<open>Runs of \<open>add_edge\<close>\<close>

text \<open>
  \<open>add_edges\<close> calls \<open>add_edge(i, j)\<close> for each \<open>j\<close> of a list, in order. \<open>edge_capacities\<close>
  records, after each of these calls, how many slots the adjacency block of row \<open>i\<close> has.
\<close>

fun add_edges ::
  "(nat \<Rightarrow> bool) \<Rightarrow> (nat \<Rightarrow> uint) \<Rightarrow> row option list \<Rightarrow> uint \<Rightarrow> uint list
     \<Rightarrow> fault + row option list" where
  "add_edges libc junk rows i [] = Inr rows"
| "add_edges libc junk rows i (j # js) =
     bindf (add_edge libc junk rows i j) (\<lambda>rows1. add_edges libc junk rows1 i js)"

fun edge_capacities ::
  "(nat \<Rightarrow> bool) \<Rightarrow> (nat \<Rightarrow> uint) \<Rightarrow> row option list \<Rightarrow> uint \<Rightarrow> uint list \<Rightarrow> nat list" where
  "edge_capacities libc junk rows i [] = []"
| "edge_capacities libc junk rows i (j # js) =
     (case add_edge libc junk rows i j of
        Inl e \<Rightarrow> []
      | Inr rows1 \<Rightarrow>
          (case rows1 ! unat i of None \<Rightarrow> 0 | Some r \<Rightarrow> length (adjacent_nodes r))
          # edge_capacities libc junk rows1 i js)"

section \<open>The graph with the edges 1 to 2, 2 to 3 and 3 to 4\<close>

text \<open>
  \<open>build_graph\<close> calls \<open>add_edge\<close> for each pair of a list. The fixed graph has five row
  slots (nodes 0 to 4), as \<open>main\<close> allocates \<open>m + 1\<close> slots for a matrix of dimension \<open>m\<close>,
  and is built by three calls of \<open>add_edge\<close> with every request granted. \<open>bfs_outcome\<close> reads
  the flag returned and the node count printed by a search that returned.
\<close>

fun build_graph ::
  "(nat \<Rightarrow> bool) \<Rightarrow> (nat \<Rightarrow> uint) \<Rightarrow> row option list \<Rightarrow> (uint \<times> uint) list
     \<Rightarrow> fault + row option list" where
  "build_graph libc junk rows [] = Inr rows"
| "build_graph libc junk rows ((i, j) # es) =
     bindf (add_edge libc junk rows i j) (\<lambda>rows1. build_graph libc junk rows1 es)"

definition granted :: "nat \<Rightarrow> bool" where
  "granted k = True"

definition fixed_graph :: "(nat \<Rightarrow> uint) \<Rightarrow> row option list" where
  "fixed_graph junk =
     (case build_graph granted junk (replicate 5 None) [(1, 2), (2, 3), (3, 4)] of
        Inl e \<Rightarrow> []
      | Inr rows \<Rightarrow> rows)"

definition zero_junk :: "nat \<Rightarrow> uint" where
  "zero_junk k = 0"

definition bfs_outcome ::
  "(fault + (bool \<times> size_t option \<times> row option list \<times> state)) option
     \<Rightarrow> (bool \<times> size_t option) option" where
  "bfs_outcome r =
     (case r of
        None \<Rightarrow> None
      | Some (Inl e) \<Rightarrow> None
      | Some (Inr (found_path, node_count, rows, s)) \<Rightarrow> Some (found_path, node_count))"

section \<open>Lemmas about chains\<close>

lemma length_first_nodes [simp]: "length (first_nodes h p n) = n"
  by (induction n arbitrary: p) auto

lemma first_nodes_snoc: "first_nodes h p (Suc n) = first_nodes h p n @ [nth_link h p n]"
  by (induction n arbitrary: p) auto

lemma nth_link_Suc_end: "nth_link h p (Suc n) = node_next (h (nth_link h p n))"
  by (induction n arbitrary: p) auto

lemma first_nodes_nth: "k < n \<Longrightarrow> first_nodes h p n ! k = nth_link h p k"
proof (induction n arbitrary: p k)
  case 0
  then show ?case by simp
next
  case (Suc n)
  then show ?case by (cases k) auto
qed

lemma first_nodes_cong:
  "(\<And>x. x \<in> set (butlast (first_nodes h p n)) \<Longrightarrow> node_next (h' x) = node_next (h x))
   \<Longrightarrow> first_nodes h' p n = first_nodes h p n"
proof (induction n arbitrary: p)
  case 0
  then show ?case by simp
next
  case (Suc n)
  show ?case
  proof (cases n)
    case 0
    then show ?thesis by simp
  next
    case (Suc m)
    have p: "node_next (h' p) = node_next (h p)"
      using Suc.prems [of p] Suc by simp
    have "first_nodes h' (node_next (h p)) n = first_nodes h (node_next (h p)) n"
      by (rule Suc.IH) (use Suc.prems Suc in auto)
    with p show ?thesis by simp
  qed
qed

lemma nth_link_cong:
  "(\<And>x. x \<in> set (first_nodes h p n) \<Longrightarrow> node_next (h' x) = node_next (h x))
   \<Longrightarrow> nth_link h' p n = nth_link h p n"
proof (induction n arbitrary: p)
  case 0
  then show ?case by simp
next
  case (Suc n)
  have p: "node_next (h' p) = node_next (h p)"
    using Suc.prems [of p] by simp
  have "nth_link h' (node_next (h p)) n = nth_link h (node_next (h p)) n"
    by (rule Suc.IH) (use Suc.prems in auto)
  with p show ?case by simp
qed

lemma walk_next_ok:
  "0 \<notin> set (first_nodes h p n) \<Longrightarrow> walk_next h p n = Inr (nth_link h p n)"
  by (induction n arbitrary: p) auto

lemma walk_prev_Suc:
  "0 \<notin> set (first_nodes h p (Suc n)) \<Longrightarrow>
   walk_prev h q p (Suc n) = Inr (nth_link h p n, nth_link h p (Suc n))"
proof (induction n arbitrary: p q)
  case 0
  then show ?case by simp
next
  case (Suc n)
  have nz: "p \<noteq> 0" and rest: "0 \<notin> set (first_nodes h (node_next (h p)) (Suc n))"
    using Suc.prems by auto
  have "walk_prev h q p (Suc (Suc n)) = walk_prev h p (node_next (h p)) (Suc n)"
    using nz by (subst walk_prev.simps) simp
  also have "\<dots> = Inr (nth_link h (node_next (h p)) n, nth_link h (node_next (h p)) (Suc n))"
    by (rule Suc.IH [OF rest])
  finally show ?case by (simp del: walk_prev.simps)
qed

lemma first_nodes_take: "k \<le> n \<Longrightarrow> take k (first_nodes h p n) = first_nodes h p k"
proof (induction n arbitrary: p k)
  case 0
  then show ?case by simp
next
  case (Suc n)
  then show ?case by (cases k) auto
qed

lemma last_first_nodes: "first_nodes h p (Suc n) \<noteq> [] \<and> last (first_nodes h p (Suc n)) = nth_link h p n"
  by (simp only: first_nodes_snoc) simp

section \<open>Lemmas about the list operations\<close>

lemma set_node_data_fields [simp]:
  "nodes (set_node_data p v s) = (nodes s)(p := (nodes s p)\<lparr>node_data := v\<rparr>)"
  "lists (set_node_data p v s) = lists s"
  "iters (set_node_data p v s) = iters s"
  "queues (set_node_data p v s) = queues s"
  "live (set_node_data p v s) = live s"
  "ll_malloc_fptr (set_node_data p v s) = ll_malloc_fptr s"
  "ll_free_fptr (set_node_data p v s) = ll_free_fptr s"
  "q_malloc_fptr (set_node_data p v s) = q_malloc_fptr s"
  "q_free_fptr (set_node_data p v s) = q_free_fptr s"
  by (simp_all add: set_node_data_def)

lemma set_node_next_fields [simp]:
  "nodes (set_node_next p w s) = (nodes s)(p := (nodes s p)\<lparr>node_next := w\<rparr>)"
  "lists (set_node_next p w s) = lists s"
  "iters (set_node_next p w s) = iters s"
  "queues (set_node_next p w s) = queues s"
  "live (set_node_next p w s) = live s"
  "ll_malloc_fptr (set_node_next p w s) = ll_malloc_fptr s"
  "ll_free_fptr (set_node_next p w s) = ll_free_fptr s"
  "q_malloc_fptr (set_node_next p w s) = q_malloc_fptr s"
  "q_free_fptr (set_node_next p w s) = q_free_fptr s"
  by (simp_all add: set_node_next_def)

lemma set_ll_head_fields [simp]:
  "nodes (set_ll_head l w s) = nodes s"
  "lists (set_ll_head l w s) = (lists s)(l := (lists s l)\<lparr>ll_head := w\<rparr>)"
  "iters (set_ll_head l w s) = iters s"
  "queues (set_ll_head l w s) = queues s"
  "live (set_ll_head l w s) = live s"
  "ll_malloc_fptr (set_ll_head l w s) = ll_malloc_fptr s"
  "ll_free_fptr (set_ll_head l w s) = ll_free_fptr s"
  "q_malloc_fptr (set_ll_head l w s) = q_malloc_fptr s"
  "q_free_fptr (set_ll_head l w s) = q_free_fptr s"
  by (simp_all add: set_ll_head_def)

lemma set_ll_tail_fields [simp]:
  "nodes (set_ll_tail l w s) = nodes s"
  "lists (set_ll_tail l w s) = (lists s)(l := (lists s l)\<lparr>ll_tail := w\<rparr>)"
  "iters (set_ll_tail l w s) = iters s"
  "queues (set_ll_tail l w s) = queues s"
  "live (set_ll_tail l w s) = live s"
  "ll_malloc_fptr (set_ll_tail l w s) = ll_malloc_fptr s"
  "ll_free_fptr (set_ll_tail l w s) = ll_free_fptr s"
  "q_malloc_fptr (set_ll_tail l w s) = q_malloc_fptr s"
  "q_free_fptr (set_ll_tail l w s) = q_free_fptr s"
  by (simp_all add: set_ll_tail_def)

lemma set_ll_size_fields [simp]:
  "nodes (set_ll_size l z s) = nodes s"
  "lists (set_ll_size l z s) = (lists s)(l := (lists s l)\<lparr>ll_size := z\<rparr>)"
  "iters (set_ll_size l z s) = iters s"
  "queues (set_ll_size l z s) = queues s"
  "live (set_ll_size l z s) = live s"
  "ll_malloc_fptr (set_ll_size l z s) = ll_malloc_fptr s"
  "ll_free_fptr (set_ll_size l z s) = ll_free_fptr s"
  "q_malloc_fptr (set_ll_size l z s) = q_malloc_fptr s"
  "q_free_fptr (set_ll_size l z s) = q_free_fptr s"
  by (simp_all add: set_ll_size_def)

lemma call_malloc_fresh:
  "fresh_answer s \<Longrightarrow>
   call_malloc (ll_malloc_fptr s) s = Inr (next_block s, s\<lparr>live := next_block s # live s\<rparr>)"
  by (auto simp: fresh_answer_def next_block_def call_malloc_def Let_def)

lemma call_malloc_null:
  "ll_malloc_fptr s \<noteq> None \<Longrightarrow> next_block s = 0 \<Longrightarrow>
   call_malloc (ll_malloc_fptr s) s = Inr (0, s)"
  by (auto simp: next_block_def call_malloc_def Let_def)

text \<open>Appending to a non-empty level-2 list.\<close>

lemma l2_insert_end_nonempty:
  assumes wf: "wf_l2 s ll" and fr: "fresh_answer s" and ne: "ll_size (lists s ll) \<noteq> 0"
  shows "linked_list_insert_end s ll d =
         Inr (True,
              set_ll_size ll (ll_size (lists s ll) + 1)
                (set_ll_tail ll (next_block s)
                  (set_node_next (ll_tail (lists s ll)) (next_block s)
                    (set_node_data (next_block s) d (s\<lparr>live := next_block s # live s\<rparr>)))))"
proof -
  have ll: "ll \<noteq> 0" using wf by (simp add: wf_l2_def list_blocks_ok_def)
  have n: "unat (ll_size (lists s ll)) \<noteq> 0" using ne by (simp add: unat_eq_0)
  then obtain k where k: "unat (ll_size (lists s ll)) = Suc k" by (cases "unat (ll_size (lists s ll))") auto
  have nodes_ne: "ll_nodes s ll \<noteq> []" using k by (simp add: ll_nodes_def)
  have "ll_tail (lists s ll) = last (ll_nodes s ll)" using wf nodes_ne by (simp add: wf_l2_def)
  moreover have "last (ll_nodes s ll) \<in> set (ll_nodes s ll)" using nodes_ne by simp
  moreover have "0 \<notin> set (ll_nodes s ll)" using wf by (simp add: wf_l2_def list_blocks_ok_def)
  ultimately have tail: "ll_tail (lists s ll) \<noteq> 0" by metis
  have q: "next_block s \<noteq> 0" using fr by (simp add: fresh_answer_def)
  show ?thesis
    using ll ne tail q
    by (simp add: linked_list_insert_end_def linked_list_insert_def linked_list_size_def
        call_malloc_fresh [OF fr] bindf_def Let_def)
qed


lemma l2_insert_end_empty:
  assumes ll: "ll \<noteq> 0" and fr: "fresh_answer s" and e: "ll_size (lists s ll) = 0"
  shows "linked_list_insert_end s ll d =
         Inr (True,
              set_ll_size ll 1
                (set_ll_tail ll (next_block s)
                  (set_ll_head ll (next_block s)
                    (set_node_next (next_block s) (ll_head (lists s ll))
                      (set_node_data (next_block s) d (s\<lparr>live := next_block s # live s\<rparr>))))))"
proof -
  have q: "next_block s \<noteq> 0" using fr by (simp add: fresh_answer_def)
  show ?thesis
    using ll e q
    by (simp add: linked_list_insert_end_def linked_list_insert_def linked_list_size_def
        call_malloc_fresh [OF fr] bindf_def Let_def)
qed

lemma last_notin_butlast: "distinct xs \<Longrightarrow> xs \<noteq> [] \<Longrightarrow> last xs \<notin> set (butlast xs)"
  by (metis append_butlast_last_id distinct_append distinct.simps(2) disjoint_iff list.set_intros(1))

lemma butlast_first_nodes: "butlast (first_nodes h p (Suc k)) = first_nodes h p k"
  by (simp only: first_nodes_snoc butlast_snoc)

lemma l2_insert_end_effect:
  assumes wf: "wf_l2 s ll" and fr: "fresh_answer s"
  shows "\<exists>s'. linked_list_insert_end s ll d = Inr (True, s') \<and>
           first_nodes (nodes s') (ll_head (lists s' ll)) (Suc (unat (ll_size (lists s ll))))
             = ll_nodes s ll @ [next_block s] \<and>
           (\<forall>p. p \<noteq> next_block s \<longrightarrow> node_data (nodes s' p) = node_data (nodes s p)) \<and>
           node_data (nodes s' (next_block s)) = d \<and>
           ll_tail (lists s' ll) = next_block s \<and>
           ll_size (lists s' ll) = ll_size (lists s ll) + 1 \<and>
           live s' = next_block s # live s \<and>
           ll_malloc_fptr s' = ll_malloc_fptr s \<and> ll_free_fptr s' = ll_free_fptr s \<and>
           q_malloc_fptr s' = q_malloc_fptr s \<and> q_free_fptr s' = q_free_fptr s \<and>
           queues s' = queues s \<and> iters s' = iters s"
proof (cases "ll_size (lists s ll) = 0")
  case True
  have ll: "ll \<noteq> 0" using wf by (simp add: wf_l2_def list_blocks_ok_def)
  have "ll_nodes s ll = []" using True by (simp add: ll_nodes_def)
  then show ?thesis
    using True by (simp add: l2_insert_end_empty [OF ll fr True])
next
  case False
  define q where "q = next_block s"
  define t where "t = ll_tail (lists s ll)"
  define h where "h = nodes s"
  define hd where "hd = ll_head (lists s ll)"
  define h' where "h' = (h(q := (h q)\<lparr>node_data := d\<rparr>))(t := ((h(q := (h q)\<lparr>node_data := d\<rparr>)) t)\<lparr>node_next := q\<rparr>)"
  obtain k where k: "unat (ll_size (lists s ll)) = Suc k"
    using False by (cases "unat (ll_size (lists s ll))") (auto simp: unat_eq_0)
  have ns: "ll_nodes s ll = first_nodes h hd (Suc k)"
    by (simp add: ll_nodes_def h_def hd_def k)
  have dist: "distinct (ll_nodes s ll)" and live: "set (ll_nodes s ll) \<subseteq> set (live s)"
    and tl: "t = last (ll_nodes s ll)"
    using wf ns by (auto simp: wf_l2_def list_blocks_ok_def t_def)
  have qfresh: "q \<notin> set (ll_nodes s ll)"
    using fr live by (auto simp: fresh_answer_def q_def)
  have t_last: "t = nth_link h hd k"
    using tl ns last_first_nodes [of h hd k] by (simp del: first_nodes.simps)
  have ns': "ll_nodes s ll = first_nodes h hd k @ [t]"
    using ns t_last by (simp only: first_nodes_snoc)
  have t_notin: "t \<notin> set (first_nodes h hd k)"
    using dist by (simp add: ns')
  have q_notin: "q \<notin> set (first_nodes h hd k)" and tq: "t \<noteq> q"
    using qfresh by (auto simp: ns')
  have same: "\<And>x. x \<in> set (first_nodes h hd k) \<Longrightarrow> node_next (h' x) = node_next (h x)"
    using t_notin q_notin by (auto simp: h'_def)
  have pre: "first_nodes h' hd (Suc k) = first_nodes h hd (Suc k)"
    by (rule first_nodes_cong) (simp only: butlast_first_nodes same)
  have "nth_link h' hd k = nth_link h hd k"
    by (rule nth_link_cong) (rule same)
  then have lnk: "nth_link h' hd (Suc k) = q"
    by (simp only: nth_link_Suc_end) (simp add: t_last [symmetric] h'_def)
  have chain: "first_nodes h' hd (Suc (Suc k)) = ll_nodes s ll @ [q]"
    using first_nodes_snoc [of h' hd "Suc k"] pre lnk ns by (simp del: first_nodes.simps)
  show ?thesis
    using False chain tq
    by (simp add: l2_insert_end_nonempty [OF wf fr False] k
        q_def [symmetric] t_def [symmetric] h_def [symmetric] hd_def [symmetric] h'_def [symmetric])
      (auto simp: h'_def)
qed

lemma good_alloc_fresh: "good_alloc s \<Longrightarrow> fresh_answer s"
  by (auto simp: good_alloc_def good_malloc_def fresh_answer_def next_block_def)

lemma unat_plus_one: "x \<noteq> SIZE_MAX \<Longrightarrow> unat (x + 1) = Suc (unat x)"
proof -
  assume "x \<noteq> SIZE_MAX"
  then have "1 + x \<noteq> 0"
    unfolding SIZE_MAX_def using eq_neg_iff_add_eq_0 [of x 1] by (simp add: add.commute)
  from unatSuc [OF this] show ?thesis by (simp add: add.commute)
qed

lemma unat_size_values: "length (ll_values s ll) = unat (ll_size (lists s ll))"
  by (simp add: ll_values_def ll_nodes_def)

lemma l2_insert_end_wf:
  assumes wf: "wf_l2 s ll" and fr: "fresh_answer s" and room: "ll_size (lists s ll) \<noteq> SIZE_MAX"
  shows "\<exists>s'. linked_list_insert_end s ll d = Inr (True, s') \<and> wf_l2 s' ll \<and>
           ll_values s' ll = ll_values s ll @ [d] \<and>
           ll_nodes s' ll = ll_nodes s ll @ [next_block s] \<and>
           nth_link (nodes s') (ll_head (lists s' ll)) (unat (ll_size (lists s' ll)))
             = node_next (nodes s' (next_block s)) \<and>
           (ll_size (lists s ll) = 0 \<longrightarrow>
              node_next (nodes s' (next_block s)) = ll_head (lists s ll)) \<and>
           live s' = next_block s # live s \<and>
           ll_malloc_fptr s' = ll_malloc_fptr s \<and> ll_free_fptr s' = ll_free_fptr s \<and>
           q_malloc_fptr s' = q_malloc_fptr s \<and> q_free_fptr s' = q_free_fptr s \<and>
           queues s' = queues s"
proof -
  define q where "q = next_block s"
  define n where "n = unat (ll_size (lists s ll))"
  from l2_insert_end_effect [OF wf fr, of d] obtain s' where
    run: "linked_list_insert_end s ll d = Inr (True, s')" and
    chain: "first_nodes (nodes s') (ll_head (lists s' ll)) (Suc n) = ll_nodes s ll @ [q]" and
    data: "\<And>p. p \<noteq> q \<Longrightarrow> node_data (nodes s' p) = node_data (nodes s p)" and
    dq: "node_data (nodes s' q) = d" and
    tail: "ll_tail (lists s' ll) = q" and
    sz: "ll_size (lists s' ll) = ll_size (lists s ll) + 1" and
    lv: "live s' = q # live s" and
    frame: "ll_malloc_fptr s' = ll_malloc_fptr s" "ll_free_fptr s' = ll_free_fptr s"
      "q_malloc_fptr s' = q_malloc_fptr s" "q_free_fptr s' = q_free_fptr s" "queues s' = queues s"
    unfolding q_def n_def by auto
  have n': "unat (ll_size (lists s' ll)) = Suc n"
    using room by (simp add: sz n_def unat_plus_one)
  have nodes': "ll_nodes s' ll = ll_nodes s ll @ [q]"
    using chain by (simp only: ll_nodes_def n')
  have ok: "list_blocks_ok s ll" using wf by (simp add: wf_l2_def)
  have qlive: "q \<notin> set (live s)" and q0: "q \<noteq> 0"
    using fr by (auto simp: fresh_answer_def q_def)
  have qn: "q \<notin> set (ll_nodes s ll)"
    using ok qlive by (auto simp: list_blocks_ok_def)
  have ok': "list_blocks_ok s' ll"
    using ok qn q0 by (auto simp: list_blocks_ok_def nodes' lv)
  have wf': "wf_l2 s' ll"
    using ok' by (simp add: wf_l2_def nodes' tail)
  have "\<And>x. x \<in> set (ll_nodes s ll) \<Longrightarrow> node_data (nodes s' x) = node_data (nodes s x)"
    using qn data by metis
  then have vals: "ll_values s' ll = ll_values s ll @ [d]"
    by (simp add: ll_values_def nodes' dq)
  have "nth_link (nodes s') (ll_head (lists s' ll)) n = q"
    using last_first_nodes [of "nodes s'" "ll_head (lists s' ll)" n] chain by (simp del: first_nodes.simps)
  then have lnk: "nth_link (nodes s') (ll_head (lists s' ll)) (unat (ll_size (lists s' ll)))
             = node_next (nodes s' q)"
    by (simp only: n' nth_link_Suc_end)
  have e: "ll_size (lists s ll) = 0 \<longrightarrow> node_next (nodes s' q) = ll_head (lists s ll)"
  proof
    assume z: "ll_size (lists s ll) = 0"
    have ll: "ll \<noteq> 0" using ok by (simp add: list_blocks_ok_def)
    show "node_next (nodes s' q) = ll_head (lists s ll)"
      using run by (simp add: l2_insert_end_empty [OF ll fr z] q_def [symmetric]) auto
  qed
  show ?thesis
    using run wf' vals nodes' lnk e lv frame unfolding q_def by simp
qed

lemma call_free_good:
  "good_alloc s \<Longrightarrow>
   \<exists>L. call_free (ll_free_fptr s) p s = Inr (s\<lparr>live := L\<rparr>) \<and>
       set (live s) - {p} \<subseteq> set L \<and> set L \<subseteq> set (live s)"
proof -
  assume "good_alloc s"
  then obtain f where f: "ll_free_fptr s = Some f" and g: "good_free f"
    by (auto simp: good_alloc_def)
  have "call_free (ll_free_fptr s) p s = Inr (s\<lparr>live := f p (live s)\<rparr>)"
    by (simp add: call_free_def f)
  moreover have "set (live s) - {p} \<subseteq> set (f p (live s))" "set (f p (live s)) \<subseteq> set (live s)"
    using g by (simp_all add: good_free_def)
  ultimately show ?thesis by blast
qed

lemma list_node_nonnull: "list_blocks_ok s ll \<Longrightarrow> p \<in> set (ll_nodes s ll) \<Longrightarrow> p \<noteq> 0"
  unfolding list_blocks_ok_def by metis

text \<open>Creating an iterator at index 0 of a non-empty level-2 list.\<close>

lemma l2_create_iterator_front:
  assumes wf: "wf_l2 s ll" and fr: "fresh_answer s" and ne: "ll_size (lists s ll) \<noteq> 0"
  shows "linked_list_create_iterator s ll 0 =
         Inr (next_block s,
              s\<lparr>live := next_block s # live s,
                iters := (iters s)(next_block s :=
                  \<lparr>it_ll = ll, it_current_node = ll_head (lists s ll), it_current_index = 0,
                   it_data = node_data (nodes s (ll_head (lists s ll)))\<rparr>)\<rparr>)"
proof -
  have ll: "ll \<noteq> 0" using wf by (simp add: wf_l2_def list_blocks_ok_def)
  obtain k where k: "unat (ll_size (lists s ll)) = Suc k"
    using ne by (cases "unat (ll_size (lists s ll))") (auto simp: unat_eq_0)
  have "ll_head (lists s ll) \<in> set (ll_nodes s ll)" by (simp add: ll_nodes_def k)
  moreover have "list_blocks_ok s ll" using wf by (simp add: wf_l2_def)
  ultimately have hd: "ll_head (lists s ll) \<noteq> 0"
    by (rule list_node_nonnull [rotated])
  have q: "next_block s \<noteq> 0" using fr by (simp add: fresh_answer_def)
  have pos: "0 < ll_size (lists s ll)" using ne by (simp add: word_neq_0_conv)
  show ?thesis
    using ll hd q pos
    by (simp add: linked_list_create_iterator_def linked_list_size_def call_malloc_fresh [OF fr]
        bindf_def linked_list_init_iterator_def init_iterator_value_def word_le_nat_alt
        word_less_nat_alt)
qed

text \<open>Removing the first node of a non-empty level-2 list.\<close>

lemma l2_remove_front:
  assumes wf: "wf_l2 s ll" and ga: "good_alloc s" and ne: "ll_size (lists s ll) \<noteq> 0"
  shows "\<exists>s'. linked_list_remove s ll 0 = Inr (True, s') \<and> wf_l2 s' ll \<and>
           ll_nodes s' ll = tl (ll_nodes s ll) \<and> nodes s' = nodes s \<and>
           ll_head (lists s' ll) = node_next (nodes s (ll_head (lists s ll))) \<and>
           ll_size (lists s' ll) = ll_size (lists s ll) - 1 \<and>
           ll_malloc_fptr s' = ll_malloc_fptr s \<and> ll_free_fptr s' = ll_free_fptr s \<and>
           q_malloc_fptr s' = q_malloc_fptr s \<and> q_free_fptr s' = q_free_fptr s \<and>
           queues s' = queues s"
proof -
  define hd where "hd = ll_head (lists s ll)"
  have ok: "list_blocks_ok s ll" using wf by (simp add: wf_l2_def)
  then have ll: "ll \<noteq> 0" by (simp add: list_blocks_ok_def)
  obtain k where k: "unat (ll_size (lists s ll)) = Suc k"
    using ne by (cases "unat (ll_size (lists s ll))") (auto simp: unat_eq_0)
  have ns: "ll_nodes s ll = hd # first_nodes (nodes s) (node_next (nodes s hd)) k"
    by (simp add: ll_nodes_def k hd_def)
  have hd0: "hd \<noteq> 0" using list_node_nonnull [OF ok, of hd] ns by simp
  define s1 where "s1 = set_ll_head ll (node_next (nodes s hd)) s"
  have ga1: "good_alloc s1" using ga by (simp add: good_alloc_def s1_def)
  from call_free_good [OF ga1, of hd] obtain L where
    fr: "call_free (ll_free_fptr s1) hd s1 = Inr (s1\<lparr>live := L\<rparr>)" and
    L1: "set (live s1) - {hd} \<subseteq> set L" and L2: "set L \<subseteq> set (live s1)"
    by blast
  define s' where "s' = set_ll_size ll (ll_size (lists s ll) - 1) (s1\<lparr>live := L\<rparr>)"
  have pos: "0 < ll_size (lists s ll)" using ne by (simp add: word_neq_0_conv)
  have run: "linked_list_remove s ll 0 = Inr (True, s')"
    using ll hd0 pos fr
    by (simp add: linked_list_remove_def linked_list_size_def bindf_def Let_def
        hd_def [symmetric] s1_def [symmetric] s'_def word_le_nat_alt word_less_nat_alt
        set_ll_size_def s1_def set_ll_head_def)
  have k': "unat (ll_size (lists s ll) - 1) = k"
    using k by (simp add: unat_minus_one ne)
  have ns': "ll_nodes s' ll = tl (ll_nodes s ll)"
    unfolding ns by (simp add: ll_nodes_def s'_def s1_def k')
  have live': "live s' = L" by (simp add: s'_def)
  have "set (tl (ll_nodes s ll)) \<subseteq> set (live s) - {hd}"
    using ok ns by (auto simp: list_blocks_ok_def)
  then have sub: "set (ll_nodes s' ll) \<subseteq> set (live s')"
    using L1 by (auto simp: ns' live' s1_def)
  have ok': "list_blocks_ok s' ll"
    using ok sub ll unfolding list_blocks_ok_def ns' ns by simp
  have tail': "ll_tail (lists s' ll) = ll_tail (lists s ll)"
    by (simp add: s'_def s1_def)
  have "ll_nodes s' ll = [] \<or> ll_tail (lists s' ll) = last (ll_nodes s' ll)"
    using wf ns by (auto simp: wf_l2_def tail' ns')
  with ok' have wf': "wf_l2 s' ll" by (simp add: wf_l2_def)
  show ?thesis
    using run wf' ns'
    by (simp add: exI [of _ s']) (simp add: s'_def s1_def hd_def)
qed

lemma find_loop_hit:
  "p \<noteq> 0 \<Longrightarrow> node_data (nodes s p) = d \<Longrightarrow> find_loop s p i d = Some i"
  by (subst find_loop.simps) simp

lemma find_loop_miss:
  "p \<noteq> 0 \<Longrightarrow> node_data (nodes s p) \<noteq> d \<Longrightarrow>
   find_loop s p i d = find_loop s (node_next (nodes s p)) (i + 1) d"
  by (subst find_loop.simps) simp

lemma find_on_chain:
  assumes "0 \<notin> set (first_nodes (nodes s) p m)"
    and "d \<in> set (map (\<lambda>x. node_data (nodes s x)) (first_nodes (nodes s) p m))"
  shows "find_loop s p i d =
         Some (i + of_nat (length (takeWhile (\<lambda>x. x \<noteq> d)
                 (map (\<lambda>x. node_data (nodes s x)) (first_nodes (nodes s) p m)))))"
  using assms
proof (induction m arbitrary: p i)
  case 0
  then show ?case by simp
next
  case (Suc m)
  have p0: "p \<noteq> 0" using Suc.prems(1) by auto
  show ?case
  proof (cases "node_data (nodes s p) = d")
    case True
    then show ?thesis using p0 by (simp add: find_loop_hit)
  next
    case False
    have a: "0 \<notin> set (first_nodes (nodes s) (node_next (nodes s p)) m)"
      using Suc.prems(1) by simp
    have b: "d \<in> set (map (\<lambda>x. node_data (nodes s x))
                (first_nodes (nodes s) (node_next (nodes s p)) m))"
      using Suc.prems(2) False by auto
    show ?thesis
      using False p0 Suc.IH [OF a b, of "i + 1"]
      by (simp add: find_loop_miss add.assoc)
  qed
qed

lemma takeWhile_neq_shorter:
  "d \<in> set vs \<Longrightarrow> length (takeWhile (\<lambda>x. x \<noteq> d) vs) < length vs"
  by (induction vs) auto

lemma first_hit_index:
  fixes z :: size_t
  assumes "unat z = length vs"
  shows "((of_nat (length (takeWhile (\<lambda>x. x \<noteq> d) (vs @ [d]))) :: size_t) = z) = (d \<notin> set vs)"
proof (cases "d \<in> set vs")
  case True
  then have "takeWhile (\<lambda>x. x \<noteq> d) (vs @ [d]) = takeWhile (\<lambda>x. x \<noteq> d) vs"
    by (simp add: takeWhile_append1)
  moreover have lt: "length (takeWhile (\<lambda>x. x \<noteq> d) vs) < length vs"
    using True by (rule takeWhile_neq_shorter)
  moreover have "length vs < 2 ^ 64"
    using assms unsigned_less [of z, where 'a = nat] by simp
  ultimately have "unat (of_nat (length (takeWhile (\<lambda>x. x \<noteq> d) (vs @ [d]))) :: size_t)
                   = length (takeWhile (\<lambda>x. x \<noteq> d) vs)"
    by (simp add: unat_of_nat)
  then show ?thesis using True lt assms by auto
next
  case False
  then have "takeWhile (\<lambda>x. x \<noteq> d) (vs @ [d]) = vs"
    by (induction vs) auto
  then show ?thesis using False assms of_nat_unat [of z, where 'a = size_t] by simp
qed

lemma first_nodes_prefix_nonnull:
  "0 \<notin> set (first_nodes h p n) \<Longrightarrow> k \<le> n \<Longrightarrow> 0 \<notin> set (first_nodes h p k)"
  using first_nodes_take [of k n h p] by (metis in_set_takeD)

lemma nth_link_in_nodes: "k < n \<Longrightarrow> nth_link h p k \<in> set (first_nodes h p n)"
  using first_nodes_nth [of k n h p] by (metis length_first_nodes nth_mem)

lemma insert_l2_false_iff:
  "(linked_list_insert s ll index d = Inr (False, s')) =
   ((ll = 0 \<or> linked_list_size s ll < index) \<and> s' = s)"
  by (auto simp: linked_list_insert_def bindf_def Let_def call_malloc_def
      init_iterator_value_def split: option.splits sum.splits if_splits)

lemma insert_l1_false_iff:
  "(linked_list_insert_l1 s ll index d = Inr (False, s')) =
   ((ll = 0 \<or> linked_list_size s ll < index) \<and> s' = s)"
  by (auto simp: linked_list_insert_l1_def bindf_def Let_def call_malloc_def
      split: option.splits sum.splits if_splits prod.splits)

lemma insert_l2_null_block:
  assumes "ll \<noteq> 0" and "index \<le> linked_list_size s ll"
    and "ll_malloc_fptr s \<noteq> None" and "next_block s = 0"
  shows "linked_list_insert s ll index d = Inl NullDeref"
  using assms
  by (simp add: linked_list_insert_def Let_def call_malloc_null bindf_def word_le_nat_alt word_less_nat_alt)

lemma insert_l1_null_block:
  assumes "ll \<noteq> 0" and "index \<le> linked_list_size s ll"
    and "ll_malloc_fptr s \<noteq> None" and "next_block s = 0"
  shows "linked_list_insert_l1 s ll index d = Inl NullDeref"
proof -
  have w: "\<And>h q p n. (\<exists>r. walk_prev h q p n = Inr r) \<or> walk_prev h q p n = Inl NullDeref"
  proof -
    fix h q p n
    show "(\<exists>r. walk_prev h q p n = Inr r) \<or> walk_prev h q p n = Inl NullDeref"
      by (induction n arbitrary: q p) auto
  qed
  show ?thesis
    using assms w [of "nodes s" 0 "ll_head (lists s ll)" "unat index"]
    by (auto simp: linked_list_insert_l1_def Let_def call_malloc_null bindf_def
        word_le_nat_alt word_less_nat_alt)
qed

text \<open>Linking a node into a chain, at the front or after a node of the chain.\<close>

lemma first_nodes_front:
  assumes "node_next (h' q) = p"
    and "\<And>x. x \<in> set (first_nodes h p n) \<Longrightarrow> node_next (h' x) = node_next (h x)"
  shows "first_nodes h' q (Suc n) = q # first_nodes h p n"
proof -
  have "first_nodes h' p n = first_nodes h p n"
    by (rule first_nodes_cong) (use assms(2) in_set_butlastD in metis)
  then show ?thesis using assms(1) by simp
qed

lemma first_nodes_splice:
  assumes "distinct (first_nodes h p n)" and "i < n"
    and "node_next (h' (nth_link h p i)) = q"
    and "node_next (h' q) = node_next (h (nth_link h p i))"
    and "\<And>x. x \<in> set (first_nodes h p n) \<Longrightarrow> x \<noteq> nth_link h p i \<Longrightarrow>
           node_next (h' x) = node_next (h x)"
  shows "first_nodes h' p (Suc n) =
         take (Suc i) (first_nodes h p n) @ q # drop (Suc i) (first_nodes h p n)"
  using assms
proof (induction n arbitrary: p i)
  case 0
  then show ?case by simp
next
  case (Suc m)
  define r where "r = node_next (h p)"
  have dist: "distinct (first_nodes h r m)" and pr: "p \<notin> set (first_nodes h r m)"
    using Suc.prems(1) by (simp_all add: r_def)
  show ?case
  proof (cases i)
    case 0
    have a: "node_next (h' p) = q" and b: "node_next (h' q) = r"
      using Suc.prems(3,4) 0 by (simp_all add: r_def)
    have "first_nodes h' r m = first_nodes h r m"
    proof (rule first_nodes_cong)
      fix x assume "x \<in> set (butlast (first_nodes h r m))"
      then have x: "x \<in> set (first_nodes h r m)" by (rule in_set_butlastD)
      then have "x \<noteq> p" using pr by metis
      then show "node_next (h' x) = node_next (h x)"
        using Suc.prems(5) [of x] x 0 by (simp add: r_def)
    qed
    then show ?thesis using a b 0 by (simp add: r_def)
  next
    case (Suc j)
    have jm: "j < m" using Suc.prems(2) Suc by simp
    have t: "nth_link h p i = nth_link h r j" by (simp add: Suc r_def)
    have "nth_link h r j \<in> set (first_nodes h r m)"
      by (rule nth_link_in_nodes [OF jm])
    then have "p \<noteq> nth_link h p i" using pr t by metis
    then have p: "node_next (h' p) = r"
      using Suc.prems(5) [of p] by (simp add: r_def)
    have "first_nodes h' r (Suc m) =
          take (Suc j) (first_nodes h r m) @ q # drop (Suc j) (first_nodes h r m)"
    proof (rule Suc.IH [OF dist jm])
      show "node_next (h' (nth_link h r j)) = q" using Suc.prems(3) t by simp
      show "node_next (h' q) = node_next (h (nth_link h r j))" using Suc.prems(4) t by simp
      fix x assume "x \<in> set (first_nodes h r m)" "x \<noteq> nth_link h r j"
      then show "node_next (h' x) = node_next (h x)"
        using Suc.prems(5) [of x] t by (simp add: r_def)
    qed
    then show ?thesis using p Suc by (simp add: r_def del: first_nodes.simps(2)) (simp add: r_def)
  qed
qed

lemma nth_link_front:
  assumes "node_next (h' q) = p"
    and "\<And>x. x \<in> set (first_nodes h p n) \<Longrightarrow> node_next (h' x) = node_next (h x)"
  shows "nth_link h' q (Suc n) = nth_link h p n"
proof -
  have "nth_link h' p n = nth_link h p n"
    by (rule nth_link_cong) (rule assms(2))
  then show ?thesis using assms(1) by simp
qed

lemma nth_link_splice:
  assumes "distinct (first_nodes h p n)" and "i < n"
    and "node_next (h' (nth_link h p i)) = q"
    and "node_next (h' q) = node_next (h (nth_link h p i))"
    and "\<And>x. x \<in> set (first_nodes h p n) \<Longrightarrow> x \<noteq> nth_link h p i \<Longrightarrow>
           node_next (h' x) = node_next (h x)"
  shows "nth_link h' p (Suc n) = nth_link h p n"
  using assms
proof (induction n arbitrary: p i)
  case 0
  then show ?case by simp
next
  case (Suc m)
  define r where "r = node_next (h p)"
  have dist: "distinct (first_nodes h r m)" and pr: "p \<notin> set (first_nodes h r m)"
    using Suc.prems(1) by (simp_all add: r_def)
  show ?case
  proof (cases i)
    case 0
    have a: "node_next (h' p) = q" and b: "node_next (h' q) = r"
      using Suc.prems(3,4) 0 by (simp_all add: r_def)
    have "nth_link h' r m = nth_link h r m"
    proof (rule nth_link_cong)
      fix x assume x: "x \<in> set (first_nodes h r m)"
      then have "x \<noteq> p" using pr by metis
      then show "node_next (h' x) = node_next (h x)"
        using Suc.prems(5) [of x] x 0 by (simp add: r_def)
    qed
    then show ?thesis using a b by (simp add: r_def)
  next
    case (Suc j)
    have jm: "j < m" using Suc.prems(2) Suc by simp
    have t: "nth_link h p i = nth_link h r j" by (simp add: Suc r_def)
    have "nth_link h r j \<in> set (first_nodes h r m)"
      by (rule nth_link_in_nodes [OF jm])
    then have "p \<noteq> nth_link h p i" using pr t by metis
    then have p: "node_next (h' p) = r"
      using Suc.prems(5) [of p] by (simp add: r_def)
    have "nth_link h' r (Suc m) = nth_link h r m"
    proof (rule Suc.IH [OF dist jm])
      show "node_next (h' (nth_link h r j)) = q" using Suc.prems(3) t by simp
      show "node_next (h' q) = node_next (h (nth_link h r j))" using Suc.prems(4) t by simp
      fix x assume "x \<in> set (first_nodes h r m)" "x \<noteq> nth_link h r j"
      then show "node_next (h' x) = node_next (h x)"
        using Suc.prems(5) [of x] t by (simp add: r_def)
    qed
    then show ?thesis using p by (simp add: r_def del: nth_link.simps(2)) (simp add: r_def)
  qed
qed

text \<open>What a successful insertion does, in both variants.\<close>

lemma l2_insert_effect:
  assumes wf: "wf_l2 s ll" and fr: "fresh_answer s" and ib: "index \<le> linked_list_size s ll"
  shows "\<exists>s'. linked_list_insert s ll index d = Inr (True, s') \<and>
           first_nodes (nodes s') (ll_head (lists s' ll)) (Suc (unat (ll_size (lists s ll))))
             = take (unat index) (ll_nodes s ll) @ next_block s # drop (unat index) (ll_nodes s ll) \<and>
           (\<forall>p. p \<noteq> next_block s \<longrightarrow> node_data (nodes s' p) = node_data (nodes s p)) \<and>
           node_data (nodes s' (next_block s)) = d \<and>
           ll_tail (lists s' ll) =
             (if index = ll_size (lists s ll) then next_block s else ll_tail (lists s ll)) \<and>
           ll_size (lists s' ll) = ll_size (lists s ll) + 1 \<and>
           live s' = next_block s # live s"
proof -
  define q where "q = next_block s"
  define n where "n = unat (ll_size (lists s ll))"
  define h where "h = nodes s"
  define hd where "hd = ll_head (lists s ll)"
  have ok: "list_blocks_ok s ll" using wf by (simp add: wf_l2_def)
  then have ll: "ll \<noteq> 0" by (simp add: list_blocks_ok_def)
  have q0: "q \<noteq> 0" and qlive: "q \<notin> set (live s)"
    using fr by (simp_all add: fresh_answer_def q_def)
  have ns: "ll_nodes s ll = first_nodes h hd n"
    by (simp add: ll_nodes_def h_def hd_def n_def)
  have dist: "distinct (first_nodes h hd n)" and nn: "0 \<notin> set (first_nodes h hd n)"
    and qn: "q \<notin> set (first_nodes h hd n)"
    using ok qlive by (auto simp: list_blocks_ok_def ns)
  have nlt: "\<not> linked_list_size s ll < index"
    using ib by (simp add: word_le_nat_alt word_less_nat_alt)
  have le: "unat index \<le> n"
    using ib ll by (simp add: word_le_nat_alt linked_list_size_def n_def)
  consider "index = ll_size (lists s ll)" | "index = 0" "index \<noteq> ll_size (lists s ll)"
    | "index \<noteq> 0" "index \<noteq> ll_size (lists s ll)" by blast
  then show ?thesis
  proof cases
    case 1
    have e: "linked_list_insert s ll index d = linked_list_insert_end s ll d"
      using ll 1 by (simp add: linked_list_insert_end_def linked_list_size_def)
    have "take (unat index) (ll_nodes s ll) = ll_nodes s ll" "drop (unat index) (ll_nodes s ll) = []"
      using 1 by (simp_all add: ll_nodes_def)
    then show ?thesis
      using l2_insert_end_effect [OF wf fr, of d] 1 unfolding e by auto
  next
    case 2
    define h' where "h' = (h(q := (h q)\<lparr>node_data := d\<rparr>))
                           (q := ((h(q := (h q)\<lparr>node_data := d\<rparr>)) q)\<lparr>node_next := hd\<rparr>)"
    have ne: "ll_size (lists s ll) \<noteq> 0" using 2 by simp
    define s' where "s' = set_ll_size ll (ll_size (lists s ll) + 1)
                            (set_ll_head ll q
                              (set_node_next q hd
                                (set_node_data q d (s\<lparr>live := q # live s\<rparr>))))"
    have run: "linked_list_insert s ll index d = Inr (True, s')"
      unfolding s'_def using ll q0 2 ne
      by (simp add: linked_list_insert_def Let_def call_malloc_fresh [OF fr] bindf_def
          linked_list_size_def q_def [symmetric] hd_def [symmetric])
    have chain: "first_nodes h' q (Suc n) = q # first_nodes h hd n"
    proof (rule first_nodes_front)
      show "node_next (h' q) = hd" by (simp add: h'_def)
      fix x assume "x \<in> set (first_nodes h hd n)"
      then have "x \<noteq> q" using qn by metis
      then show "node_next (h' x) = node_next (h x)" by (simp add: h'_def)
    qed
    have st: "nodes s' = h'" "ll_head (lists s' ll) = q"
      "ll_tail (lists s' ll) = ll_tail (lists s ll)"
      "ll_size (lists s' ll) = ll_size (lists s ll) + 1" "live s' = q # live s"
      by (simp_all add: s'_def h'_def h_def)
    have dat: "\<forall>p. p \<noteq> q \<longrightarrow> node_data (h' p) = node_data (h p)" "node_data (h' q) = d"
      by (simp_all add: h'_def)
    show ?thesis
      apply (rule exI [of _ s'])
      using run chain dat 2(2)
      by (simp only: st q_def [symmetric] h_def [symmetric] n_def [symmetric] ns
          2(1) unsigned_0 take_0 drop_0 append_Nil if_False simp_thms)
  next
    case 3
    have i0: "unat index \<noteq> 0" using 3(1) by (simp add: unat_eq_0)
    have "unat index \<noteq> n" using 3(2) by (simp add: n_def word_unat_eq_iff)
    then have lt: "unat index < n" using le by simp
    define i where "i = unat index - 1"
    have ii: "unat (index - 1) = i" "Suc i = unat index" "i < n"
      using i0 lt 3(1) by (simp_all add: unat_minus_one i_def)
    define prev where "prev = nth_link h hd i"
    have pin: "prev \<in> set (first_nodes h hd n)"
      unfolding prev_def by (rule nth_link_in_nodes [OF ii(3)])
    have p0: "prev \<noteq> 0" using pin nn by metis
    have pq: "prev \<noteq> q" using pin qn by metis
    define h2 where "h2 = h(q := (h q)\<lparr>node_data := d\<rparr>)"
    define h' where "h' = (h2(q := (h2 q)\<lparr>node_next := node_next (h2 prev)\<rparr>))
                            (prev := ((h2(q := (h2 q)\<lparr>node_next := node_next (h2 prev)\<rparr>)) prev)
                                       \<lparr>node_next := q\<rparr>)"
    have same: "\<And>m. first_nodes h2 hd m = first_nodes h hd m"
      by (rule first_nodes_cong) (simp add: h2_def)
    have same': "\<And>m. nth_link h2 hd m = nth_link h hd m"
      by (rule nth_link_cong) (simp add: h2_def)
    have "0 \<notin> set (first_nodes h2 hd i)"
      using first_nodes_prefix_nonnull [OF nn, of i] ii(3) same by simp
    then have w2: "walk_next h2 hd i = Inr prev"
      using walk_next_ok [of h2 hd i] same' by (simp add: prev_def)
    define s' where "s' = set_ll_size ll (ll_size (lists s ll) + 1)
                            (set_node_next prev q
                              (set_node_next q (node_next (h2 prev))
                                (set_node_data q d (s\<lparr>live := q # live s\<rparr>))))"
    have run: "linked_list_insert s ll index d = Inr (True, s')"
      unfolding s'_def using ll q0 3 nlt p0 w2
      by (simp add: linked_list_insert_def Let_def call_malloc_fresh [OF fr] bindf_def
          linked_list_size_def init_iterator_value_def h_def [symmetric] hd_def [symmetric]
          q_def [symmetric] h2_def [symmetric] ii(1))
    have chain: "first_nodes h' hd (Suc n) =
                 take (Suc i) (first_nodes h hd n) @ q # drop (Suc i) (first_nodes h hd n)"
    proof (rule first_nodes_splice [OF dist ii(3)])
      show "node_next (h' (nth_link h hd i)) = q" by (simp add: h'_def prev_def)
      show "node_next (h' q) = node_next (h (nth_link h hd i))"
        using pq by (simp add: h'_def h2_def prev_def [symmetric])
      fix x assume "x \<in> set (first_nodes h hd n)" "x \<noteq> nth_link h hd i"
      moreover from this have "x \<noteq> q" using qn by metis
      ultimately show "node_next (h' x) = node_next (h x)"
        by (simp add: h'_def h2_def prev_def)
    qed
    have st: "nodes s' = h'" "ll_head (lists s' ll) = hd"
      "ll_tail (lists s' ll) = ll_tail (lists s ll)"
      "ll_size (lists s' ll) = ll_size (lists s ll) + 1" "live s' = q # live s"
      by (simp_all add: s'_def h'_def h2_def h_def hd_def)
    have dat: "\<forall>p. p \<noteq> q \<longrightarrow> node_data (h' p) = node_data (h p)" "node_data (h' q) = d"
      using pq by (simp_all add: h'_def h2_def)
    show ?thesis
      apply (rule exI [of _ s'])
      using run chain dat 3(2)
      by (simp only: st q_def [symmetric] h_def [symmetric] n_def [symmetric] ns
          ii(2) if_False simp_thms)
  qed
qed

lemma l1_insert_effect:
  assumes wf: "wf_l1 s ll" and fr: "fresh_answer s" and ib: "index \<le> linked_list_size s ll"
  shows "\<exists>s'. linked_list_insert_l1 s ll index d = Inr (True, s') \<and>
           first_nodes (nodes s') (ll_head (lists s' ll)) (Suc (unat (ll_size (lists s ll))))
             = take (unat index) (ll_nodes s ll) @ next_block s # drop (unat index) (ll_nodes s ll) \<and>
           (\<forall>p. p \<noteq> next_block s \<longrightarrow> node_data (nodes s' p) = node_data (nodes s p)) \<and>
           node_data (nodes s' (next_block s)) = d \<and>
           nth_link (nodes s') (ll_head (lists s' ll)) (Suc (unat (ll_size (lists s ll)))) = 0 \<and>
           ll_size (lists s' ll) = ll_size (lists s ll) + 1 \<and>
           live s' = next_block s # live s"
proof -
  define q where "q = next_block s"
  define n where "n = unat (ll_size (lists s ll))"
  define h where "h = nodes s"
  define hd where "hd = ll_head (lists s ll)"
  define h2 where "h2 = h(q := (h q)\<lparr>node_data := d, node_next := 0\<rparr>)"
  define s2 where "s2 = set_node_next q 0 (set_node_data q d (s\<lparr>live := q # live s\<rparr>))"
  have ok: "list_blocks_ok s ll" and en: "nth_link h hd n = 0"
    using wf by (simp_all add: wf_l1_def ends_null_def h_def hd_def n_def)
  have ll: "ll \<noteq> 0" using ok by (simp add: list_blocks_ok_def)
  have q0: "q \<noteq> 0" and qlive: "q \<notin> set (live s)"
    using fr by (simp_all add: fresh_answer_def q_def)
  have ns: "ll_nodes s ll = first_nodes h hd n"
    by (simp add: ll_nodes_def h_def hd_def n_def)
  have dist: "distinct (first_nodes h hd n)" and nn: "0 \<notin> set (first_nodes h hd n)"
    and qn: "q \<notin> set (first_nodes h hd n)"
    using ok qlive by (auto simp: list_blocks_ok_def ns)
  have nlt: "\<not> linked_list_size s ll < index"
    using ib by (simp add: word_le_nat_alt word_less_nat_alt)
  have le: "unat index \<le> n"
    using ib ll by (simp add: word_le_nat_alt linked_list_size_def n_def)
  have s2: "nodes s2 = h2" "lists s2 = lists s" "live s2 = q # live s"
    by (simp_all add: s2_def h2_def h_def)
  have start: "linked_list_insert_l1 s ll index d =
               bindf (walk_prev h 0 hd (unat index)) (\<lambda>(prev, cur).
                 let s3 = (if hd = 0 then set_ll_head ll q s2
                           else if prev \<noteq> 0 then
                             set_node_next prev q (set_node_next q (node_next (h2 prev)) s2)
                           else set_ll_head ll q (set_node_next q hd s2))
                 in Inr (True, set_ll_size ll (ll_size (lists s3 ll) + 1) s3))"
    using ll nlt q0
    by (simp add: linked_list_insert_l1_def call_malloc_fresh [OF fr] bindf_def Let_def
        q_def [symmetric] h_def [symmetric] hd_def [symmetric] s2_def [symmetric] s2
        split: sum.splits prod.splits)
  show ?thesis
  proof (cases "unat index")
    case 0
    show ?thesis
    proof (cases "hd = 0")
      case True
      have n0: "n = 0"
      proof (cases n)
        case (Suc m)
        then have "hd \<in> set (first_nodes h hd n)" by simp
        then show ?thesis using nn True by metis
      qed simp
      define s' where "s' = set_ll_size ll (ll_size (lists s ll) + 1) (set_ll_head ll q s2)"
      have run: "linked_list_insert_l1 s ll index d = Inr (True, s')"
        using True 0 by (simp add: start bindf_def s'_def s2)
      have st: "nodes s' = h2" "ll_head (lists s' ll) = q"
        "ll_size (lists s' ll) = ll_size (lists s ll) + 1" "live s' = q # live s"
        by (simp_all add: s'_def s2)
      have dat: "\<forall>p. p \<noteq> q \<longrightarrow> node_data (h2 p) = node_data (h p)" "node_data (h2 q) = d"
        "node_next (h2 q) = 0"
        by (simp_all add: h2_def)
      show ?thesis
        apply (rule exI [of _ s'])
        using run dat
        by (simp add: st q_def [symmetric] h_def [symmetric] n_def [symmetric] ns n0 0)
    next
      case False
      define h' where "h' = h2(q := (h2 q)\<lparr>node_next := hd\<rparr>)"
      define s' where "s' = set_ll_size ll (ll_size (lists s ll) + 1)
                              (set_ll_head ll q (set_node_next q hd s2))"
      have run: "linked_list_insert_l1 s ll index d = Inr (True, s')"
        using False 0 by (simp add: start bindf_def s'_def s2)
      have st: "nodes s' = h'" "ll_head (lists s' ll) = q"
        "ll_size (lists s' ll) = ll_size (lists s ll) + 1" "live s' = q # live s"
        by (simp_all add: s'_def s2 h'_def)
      have dat: "\<forall>p. p \<noteq> q \<longrightarrow> node_data (h' p) = node_data (h p)" "node_data (h' q) = d"
        by (simp_all add: h'_def h2_def)
      have nq: "node_next (h' q) = hd" by (simp add: h'_def)
      have same: "\<And>x. x \<in> set (first_nodes h hd n) \<Longrightarrow> node_next (h' x) = node_next (h x)"
      proof -
        fix x assume "x \<in> set (first_nodes h hd n)"
        then have "x \<noteq> q" using qn by metis
        then show "node_next (h' x) = node_next (h x)" by (simp add: h'_def h2_def)
      qed
      have chain: "first_nodes h' q (Suc n) = q # first_nodes h hd n"
        by (rule first_nodes_front [where h = h, OF nq same])
      have lnk: "nth_link h' q (Suc n) = 0"
        using nth_link_front [where h = h, OF nq same] en by simp
      show ?thesis
        apply (rule exI [of _ s'])
        using run chain lnk dat
        by (simp only: st q_def [symmetric] h_def [symmetric] n_def [symmetric] ns
            0 take_0 drop_0 append_Nil simp_thms)
    qed
  next
    case (Suc k)
    have kn: "k < n" using le Suc by simp
    define prev where "prev = nth_link h hd k"
    have pin: "prev \<in> set (first_nodes h hd n)"
      unfolding prev_def by (rule nth_link_in_nodes [OF kn])
    have p0: "prev \<noteq> 0" using pin nn by metis
    have pq: "prev \<noteq> q" using pin qn by metis
    have "hd \<in> set (first_nodes h hd n)" using kn by (cases n) simp_all
    then have hd0: "hd \<noteq> 0" using nn by metis
    have "0 \<notin> set (first_nodes h hd (Suc k))"
      using first_nodes_prefix_nonnull [OF nn, of "Suc k"] kn by simp
    then have walk: "walk_prev h 0 hd (Suc k) = Inr (prev, nth_link h hd (Suc k))"
      unfolding prev_def by (rule walk_prev_Suc)
    define h' where "h' = (h2(q := (h2 q)\<lparr>node_next := node_next (h2 prev)\<rparr>))
                            (prev := ((h2(q := (h2 q)\<lparr>node_next := node_next (h2 prev)\<rparr>)) prev)
                                       \<lparr>node_next := q\<rparr>)"
    define s' where "s' = set_ll_size ll (ll_size (lists s ll) + 1)
                            (set_node_next prev q (set_node_next q (node_next (h2 prev)) s2))"
    have run: "linked_list_insert_l1 s ll index d = Inr (True, s')"
      using hd0 p0 by (simp add: start Suc walk bindf_def s'_def s2 del: walk_prev.simps)
    have st: "nodes s' = h'" "ll_head (lists s' ll) = hd"
      "ll_size (lists s' ll) = ll_size (lists s ll) + 1" "live s' = q # live s"
      by (simp_all add: s'_def s2 h'_def hd_def)
    have dat: "\<forall>p. p \<noteq> q \<longrightarrow> node_data (h' p) = node_data (h p)" "node_data (h' q) = d"
      using pq by (simp_all add: h'_def h2_def)
    have a: "node_next (h' (nth_link h hd k)) = q" by (simp add: h'_def prev_def)
    have b: "node_next (h' q) = node_next (h (nth_link h hd k))"
      using pq by (simp add: h'_def h2_def prev_def [symmetric])
    have c: "\<And>x. x \<in> set (first_nodes h hd n) \<Longrightarrow> x \<noteq> nth_link h hd k \<Longrightarrow>
               node_next (h' x) = node_next (h x)"
    proof -
      fix x assume x: "x \<in> set (first_nodes h hd n)" "x \<noteq> nth_link h hd k"
      then have "x \<noteq> q" using qn by metis
      then show "node_next (h' x) = node_next (h x)"
        using x(2) by (simp add: h'_def h2_def prev_def)
    qed
    have chain: "first_nodes h' hd (Suc n) =
                 take (Suc k) (first_nodes h hd n) @ q # drop (Suc k) (first_nodes h hd n)"
      by (rule first_nodes_splice [where h = h, OF dist kn a b c])
    have lnk: "nth_link h' hd (Suc n) = 0"
      using nth_link_splice [where h = h, OF dist kn a b c] en by simp
    show ?thesis
      apply (rule exI [of _ s'])
      using run chain lnk dat
      by (simp only: st q_def [symmetric] h_def [symmetric] n_def [symmetric] ns
          Suc simp_thms)
  qed
qed

lemma insert_at_set: "set (take i xs @ q # drop i xs) = insert q (set xs)"
proof -
  have "set (take i xs) \<union> set (drop i xs) = set xs"
    by (metis append_take_drop_id set_append)
  then show ?thesis by auto
qed

lemma insert_at_distinct:
  assumes "distinct xs" and "q \<notin> set xs"
  shows "distinct (take i xs @ q # drop i xs)"
proof -
  have "distinct (take i xs @ drop i xs)" using assms(1) by (simp only: append_take_drop_id)
  moreover have "q \<notin> set (take i xs)" "q \<notin> set (drop i xs)"
    using assms(2) in_set_takeD in_set_dropD by metis+
  ultimately show ?thesis by (simp only: distinct_append distinct.simps set_simps) blast
qed

lemma old_data_kept:
  assumes ok: "list_blocks_ok s ll" and fr: "fresh_answer s"
    and data: "\<forall>p. p \<noteq> next_block s \<longrightarrow> node_data (nodes s' p) = node_data (nodes s p)"
  shows "map (\<lambda>p. node_data (nodes s' p)) (ll_nodes s ll) = ll_values s ll"
proof -
  have "next_block s \<notin> set (ll_nodes s ll)"
    using ok fr by (auto simp: list_blocks_ok_def fresh_answer_def)
  then have "\<And>x. x \<in> set (ll_nodes s ll) \<Longrightarrow> node_data (nodes s' x) = node_data (nodes s x)"
    using data by metis
  then show ?thesis by (simp add: ll_values_def)
qed

lemma linked_at_values:
  assumes ok: "list_blocks_ok s ll" and fr: "fresh_answer s"
    and la: "linked_at s ll index d s1" and room: "ll_size (lists s ll) \<noteq> SIZE_MAX"
  shows "ll_nodes s1 ll = take (unat index) (ll_nodes s ll) @ next_block s # drop (unat index) (ll_nodes s ll)"
    and "ll_values s1 ll = take (unat index) (ll_values s ll) @ d # drop (unat index) (ll_values s ll)"
    and "list_blocks_ok s1 ll"
proof -
  define q where "q = next_block s"
  define i where "i = unat index"
  have n': "unat (ll_size (lists s1 ll)) = Suc (unat (ll_size (lists s ll)))"
    using la room by (simp add: linked_at_def unat_plus_one)
  have chain: "first_nodes (nodes s1) (ll_head (lists s1 ll)) (Suc (unat (ll_size (lists s ll))))
                 = take i (ll_nodes s ll) @ q # drop i (ll_nodes s ll)"
    using la by (simp add: linked_at_def q_def i_def)
  show nodes': "ll_nodes s1 ll = take i (ll_nodes s ll) @ q # drop i (ll_nodes s ll)"
    unfolding ll_nodes_def [of s1] n' by (rule chain)
  have vs: "map (\<lambda>p. node_data (nodes s1 p)) (ll_nodes s ll) = ll_values s ll"
    and dq: "node_data (nodes s1 q) = d" and lv: "live s1 = q # live s"
    using la by (simp_all add: linked_at_def q_def)
  show "ll_values s1 ll = take i (ll_values s ll) @ d # drop i (ll_values s ll)"
    unfolding ll_values_def [of s1] nodes'
    by (simp add: dq take_map [symmetric] drop_map [symmetric] vs)
  have q0: "q \<noteq> 0" and ql: "q \<notin> set (live s)"
    using fr by (simp_all add: fresh_answer_def q_def)
  have qn: "q \<notin> set (ll_nodes s ll)"
    using ok ql by (auto simp: list_blocks_ok_def)
  have "distinct (ll_nodes s ll)" using ok by (simp add: list_blocks_ok_def)
  then have "distinct (ll_nodes s1 ll)"
    unfolding nodes' using qn by (rule insert_at_distinct)
  moreover have "set (ll_nodes s1 ll) = insert q (set (ll_nodes s ll))"
    unfolding nodes' by (rule insert_at_set)
  ultimately show "list_blocks_ok s1 ll"
    using ok qn q0 unfolding list_blocks_ok_def lv by auto
qed

lemma insert_l2_links:
  assumes wf: "wf_l2 s ll" and fr: "fresh_answer s" and ib: "index \<le> linked_list_size s ll"
  shows "\<exists>s1. linked_list_insert s ll index d = Inr (True, s1) \<and> linked_at s ll index d s1 \<and>
           (ll_size (lists s ll) \<noteq> SIZE_MAX \<longrightarrow>
              wf_l2 s1 ll \<and>
              ll_values s1 ll =
                take (unat index) (ll_values s ll) @ d # drop (unat index) (ll_values s ll))"
proof -
  define q where "q = next_block s"
  define ns where "ns = ll_nodes s ll"
  have ok: "list_blocks_ok s ll" using wf by (simp add: wf_l2_def)
  then have ll: "ll \<noteq> 0" by (simp add: list_blocks_ok_def)
  have len: "length ns = unat (ll_size (lists s ll))" by (simp add: ns_def ll_nodes_def)
  from l2_insert_effect [OF wf fr ib, of d] obtain s1 where
    run: "linked_list_insert s ll index d = Inr (True, s1)" and
    chain: "first_nodes (nodes s1) (ll_head (lists s1 ll)) (Suc (unat (ll_size (lists s ll))))
             = take (unat index) ns @ q # drop (unat index) ns" and
    data: "\<forall>p. p \<noteq> next_block s \<longrightarrow> node_data (nodes s1 p) = node_data (nodes s p)" and
    dq: "node_data (nodes s1 q) = d" and
    tail: "ll_tail (lists s1 ll) =
             (if index = ll_size (lists s ll) then q else ll_tail (lists s ll))" and
    sz: "ll_size (lists s1 ll) = ll_size (lists s ll) + 1" and
    lv: "live s1 = q # live s"
    unfolding q_def ns_def by blast
  have la: "linked_at s ll index d s1"
    unfolding linked_at_def using chain dq sz lv old_data_kept [OF ok fr data]
    by (simp add: q_def ns_def)
  have post: "wf_l2 s1 ll \<and>
              ll_values s1 ll =
                take (unat index) (ll_values s ll) @ d # drop (unat index) (ll_values s ll)"
    if room: "ll_size (lists s ll) \<noteq> SIZE_MAX"
  proof -
    note p = linked_at_values [OF ok fr la room]
    have nodes': "ll_nodes s1 ll = take (unat index) ns @ q # drop (unat index) ns"
      using p(1) by (simp add: q_def ns_def)
    have "ll_tail (lists s1 ll) = last (ll_nodes s1 ll)"
    proof (cases "index = ll_size (lists s ll)")
      case True
      then have "drop (unat index) ns = []" using len by simp
      then show ?thesis using True tail by (simp add: nodes')
    next
      case False
      have "unat index \<le> length ns"
        using ib ll by (simp add: word_le_nat_alt linked_list_size_def len)
      moreover have "unat index \<noteq> length ns" using False by (simp add: len word_unat_eq_iff)
      ultimately have lt: "unat index < length ns" by simp
      then have ne: "ns \<noteq> []" by auto
      then have "ll_tail (lists s ll) = last ns" using wf by (simp add: wf_l2_def ns_def)
      moreover have "last (ll_nodes s1 ll) = last ns"
        using lt by (simp add: nodes' last_drop)
      ultimately show ?thesis using False tail by simp
    qed
    then have "wf_l2 s1 ll" using p(3) by (simp add: wf_l2_def)
    then show ?thesis using p(2) by simp
  qed
  show ?thesis using run la post by blast
qed

lemma insert_l1_links:
  assumes wf: "wf_l1 s ll" and fr: "fresh_answer s" and ib: "index \<le> linked_list_size s ll"
  shows "\<exists>s1. linked_list_insert_l1 s ll index d = Inr (True, s1) \<and> linked_at s ll index d s1 \<and>
           (ll_size (lists s ll) \<noteq> SIZE_MAX \<longrightarrow>
              wf_l1 s1 ll \<and>
              ll_values s1 ll =
                take (unat index) (ll_values s ll) @ d # drop (unat index) (ll_values s ll))"
proof -
  have ok: "list_blocks_ok s ll" using wf by (simp add: wf_l1_def)
  from l1_insert_effect [OF wf fr ib, of d] obtain s1 where
    run: "linked_list_insert_l1 s ll index d = Inr (True, s1)" and
    chain: "first_nodes (nodes s1) (ll_head (lists s1 ll)) (Suc (unat (ll_size (lists s ll))))
             = take (unat index) (ll_nodes s ll) @ next_block s # drop (unat index) (ll_nodes s ll)" and
    data: "\<forall>p. p \<noteq> next_block s \<longrightarrow> node_data (nodes s1 p) = node_data (nodes s p)" and
    dq: "node_data (nodes s1 (next_block s)) = d" and
    lnk: "nth_link (nodes s1) (ll_head (lists s1 ll)) (Suc (unat (ll_size (lists s ll)))) = 0" and
    sz: "ll_size (lists s1 ll) = ll_size (lists s ll) + 1" and
    lv: "live s1 = next_block s # live s"
    by blast
  have la: "linked_at s ll index d s1"
    unfolding linked_at_def using chain dq sz lv old_data_kept [OF ok fr data] by simp
  have post: "wf_l1 s1 ll \<and>
              ll_values s1 ll =
                take (unat index) (ll_values s ll) @ d # drop (unat index) (ll_values s ll)"
    if room: "ll_size (lists s ll) \<noteq> SIZE_MAX"
  proof -
    note p = linked_at_values [OF ok fr la room]
    have "unat (ll_size (lists s1 ll)) = Suc (unat (ll_size (lists s ll)))"
      using room by (simp add: sz unat_plus_one)
    then have "ends_null s1 ll" using lnk by (simp only: ends_null_def)
    then have "wf_l1 s1 ll" using p(3) by (simp add: wf_l1_def)
    then show ?thesis using p(2) by simp
  qed
  show ?thesis using run la post by blast
qed

text \<open>\<open>find\<close> after an insertion at the end.\<close>

lemma first_hit_bound: "length (takeWhile (\<lambda>x. x \<noteq> d) (vs @ [d])) \<le> length vs"
  by (induction vs) auto

lemma find_after_append:
  assumes chain: "first_nodes (nodes s') (ll_head (lists s' ll)) (Suc n) = ns @ [q]"
    and nn: "0 \<notin> set ns" and q0: "q \<noteq> 0" and ll: "ll \<noteq> 0"
    and vs: "map (\<lambda>p. node_data (nodes s' p)) ns = vs" and dq: "node_data (nodes s' q) = d"
    and z: "unat z = length vs"
  shows "\<exists>r. linked_list_find s' ll d = Some r \<and>
             unat r = length (takeWhile (\<lambda>x. x \<noteq> d) (vs @ [d])) \<and>
             (r = z) = (d \<notin> set vs)"
proof -
  have a: "0 \<notin> set (first_nodes (nodes s') (ll_head (lists s' ll)) (Suc n))"
    unfolding chain using nn q0 by simp
  have b: "d \<in> set (map (\<lambda>x. node_data (nodes s' x))
                (first_nodes (nodes s') (ll_head (lists s' ll)) (Suc n)))"
    unfolding chain using dq by simp
  have "find_loop s' (ll_head (lists s' ll)) 0 d =
        Some (0 + of_nat (length (takeWhile (\<lambda>x. x \<noteq> d)
               (map (\<lambda>x. node_data (nodes s' x))
                  (first_nodes (nodes s') (ll_head (lists s' ll)) (Suc n))))))"
    by (rule find_on_chain [OF a b])
  then have f: "linked_list_find s' ll d =
                Some (of_nat (length (takeWhile (\<lambda>x. x \<noteq> d) (vs @ [d]))))"
    unfolding chain using ll vs dq by (simp add: linked_list_find_def)
  have "length vs < 2 ^ 64"
    using z unsigned_less [of z, where 'a = nat] by simp
  then have "length (takeWhile (\<lambda>x. x \<noteq> d) (vs @ [d])) < 2 ^ 64"
    using first_hit_bound [of d vs] by simp
  then have u: "unat (of_nat (length (takeWhile (\<lambda>x. x \<noteq> d) (vs @ [d]))) :: size_t)
                = length (takeWhile (\<lambda>x. x \<noteq> d) (vs @ [d]))"
    by (simp add: unat_of_nat)
  show ?thesis using f u first_hit_index [OF z, of d] by simp
qed

lemma insert_end_as_insert:
  "ll \<noteq> 0 \<Longrightarrow> linked_list_insert_end s ll d = linked_list_insert s ll (ll_size (lists s ll)) d"
  "ll \<noteq> 0 \<Longrightarrow> linked_list_insert_end_l1 s ll d = linked_list_insert_l1 s ll (ll_size (lists s ll)) d"
  by (simp_all add: linked_list_insert_end_def linked_list_insert_end_l1_def linked_list_size_def)

lemma find_after_insert_end:
  assumes ok: "list_blocks_ok s ll" and fr: "fresh_answer s"
    and la: "linked_at s ll (ll_size (lists s ll)) d s'"
    and post: "ll_size (lists s ll) \<noteq> SIZE_MAX \<longrightarrow>
                 ll_values s' ll = take (unat (ll_size (lists s ll))) (ll_values s ll) @ d #
                                   drop (unat (ll_size (lists s ll))) (ll_values s ll)"
  shows "\<exists>r. linked_list_find s' ll d = Some r \<and>
             unat r = length (takeWhile (\<lambda>x. x \<noteq> d) (ll_values s ll @ [d])) \<and>
             (r = linked_list_size s ll) = (d \<notin> set (ll_values s ll)) \<and>
             (ll_size (lists s ll) \<noteq> SIZE_MAX \<longrightarrow> ll_values s' ll = ll_values s ll @ [d])"
proof -
  have ll: "ll \<noteq> 0" and nn: "0 \<notin> set (ll_nodes s ll)"
    using ok by (simp_all add: list_blocks_ok_def)
  have q0: "next_block s \<noteq> 0" using fr by (simp add: fresh_answer_def)
  have len: "length (ll_nodes s ll) = unat (ll_size (lists s ll))"
    "length (ll_values s ll) = unat (ll_size (lists s ll))"
    by (simp_all add: ll_nodes_def ll_values_def)
  have chain: "first_nodes (nodes s') (ll_head (lists s' ll)) (Suc (unat (ll_size (lists s ll))))
                 = ll_nodes s ll @ [next_block s]"
    and vs: "map (\<lambda>p. node_data (nodes s' p)) (ll_nodes s ll) = ll_values s ll"
    and dq: "node_data (nodes s' (next_block s)) = d"
    using la len by (simp_all add: linked_at_def)
  have z: "unat (linked_list_size s ll) = length (ll_values s ll)"
    using ll by (simp add: linked_list_size_def len)
  have v: "ll_size (lists s ll) \<noteq> SIZE_MAX \<longrightarrow> ll_values s' ll = ll_values s ll @ [d]"
    using post len by simp
  from find_after_append [OF chain nn q0 ll vs dq z] v show ?thesis by blast
qed


section \<open>Lemmas about the queue operations\<close>

lemma queue_size_values:
  "queue \<noteq> 0 \<Longrightarrow> q_ll (queues s queue) \<noteq> 0 \<Longrightarrow>
   queue_size s queue = of_nat (length (queue_values s queue))"
  by (simp add: queue_size_def linked_list_size_def queue_values_def unat_size_values)

lemma queue_push_ok:
  assumes ok: "queue_ok s queue" and ga: "good_alloc s"
    and room: "queue_size s queue \<noteq> SIZE_MAX"
  shows "\<exists>s'. queue_push s queue v = Inr (True, s') \<and> queue_ok s' queue \<and> good_alloc s' \<and>
           queue_values s' queue = queue_values s queue @ [v] \<and>
           (queue_values s queue = [] \<and> ends_null s (q_ll (queues s queue))
              \<longrightarrow> ends_null s' (q_ll (queues s' queue))) \<and>
           q_malloc_fptr s' = q_malloc_fptr s \<and> q_free_fptr s' = q_free_fptr s \<and>
           queues s' = queues s"
proof -
  define ll where "ll = q_ll (queues s queue)"
  have q0: "queue \<noteq> 0" and wf: "wf_l2 s ll"
    using ok by (simp_all add: queue_ok_def ll_def)
  have ll0: "ll \<noteq> 0" using wf by (simp add: wf_l2_def list_blocks_ok_def)
  have room': "ll_size (lists s ll) \<noteq> SIZE_MAX"
    using room q0 ll0 by (simp add: queue_size_def linked_list_size_def ll_def)
  from l2_insert_end_wf [OF wf good_alloc_fresh [OF ga] room', of v] obtain s' where
    run: "linked_list_insert_end s ll v = Inr (True, s')" and wf': "wf_l2 s' ll" and
    vals: "ll_values s' ll = ll_values s ll @ [v]" and
    lnk: "nth_link (nodes s') (ll_head (lists s' ll)) (unat (ll_size (lists s' ll)))
             = node_next (nodes s' (next_block s))" and
    e: "ll_size (lists s ll) = 0 \<longrightarrow> node_next (nodes s' (next_block s)) = ll_head (lists s ll)" and
    frame: "ll_malloc_fptr s' = ll_malloc_fptr s" "ll_free_fptr s' = ll_free_fptr s"
      "q_malloc_fptr s' = q_malloc_fptr s" "q_free_fptr s' = q_free_fptr s" "queues s' = queues s"
    by blast
  have ga': "good_alloc s'" using ga frame by (simp add: good_alloc_def)
  have en: "queue_values s queue = [] \<and> ends_null s ll \<longrightarrow> ends_null s' ll"
  proof
    assume a: "queue_values s queue = [] \<and> ends_null s ll"
    then have "unat (ll_size (lists s ll)) = 0"
      using unat_size_values [of s ll] by (simp add: queue_values_def ll_def)
    then have z: "ll_size (lists s ll) = 0" by (simp add: unat_eq_0)
    then have "ll_head (lists s ll) = 0" using a by (simp add: ends_null_def)
    then show "ends_null s' ll" using e z lnk by (simp add: ends_null_def)
  qed
  show ?thesis
    using run wf' vals en ga' frame q0
    by (simp add: queue_push_def queue_ok_def queue_values_def ll_def [symmetric])
qed

lemma queue_pop_empty:
  assumes ok: "queue_ok s queue" and e: "queue_values s queue = []"
  shows "queue_pop s queue d0 = Inr (False, d0, s)"
proof -
  have "unat (ll_size (lists s (q_ll (queues s queue)))) = 0"
    using e unat_size_values [of s "q_ll (queues s queue)"] by (simp add: queue_values_def)
  then have "ll_size (lists s (q_ll (queues s queue))) = 0" by (simp add: unat_eq_0)
  moreover have "q_ll (queues s queue) \<noteq> 0"
    using ok by (simp add: queue_ok_def wf_l2_def list_blocks_ok_def)
  ultimately show ?thesis
    by (simp add: queue_pop_def queue_next_def queue_has_next_def queue_size_def
        linked_list_size_def bindf_def)
qed

lemma queue_pop_ok:
  assumes ok: "queue_ok s queue" and ga: "good_alloc s" and v: "queue_values s queue = x # xs"
  shows "\<exists>s'. queue_pop s queue d0 = Inr (True, x, s') \<and> queue_ok s' queue \<and> good_alloc s' \<and>
           queue_values s' queue = xs \<and>
           queue_size s' queue = queue_size s queue - 1 \<and>
           (ends_null s (q_ll (queues s queue)) \<longrightarrow> ends_null s' (q_ll (queues s' queue))) \<and>
           q_malloc_fptr s' = q_malloc_fptr s \<and> q_free_fptr s' = q_free_fptr s \<and>
           queues s' = queues s"
proof -
  define ll where "ll = q_ll (queues s queue)"
  define hd where "hd = ll_head (lists s ll)"
  have q0: "queue \<noteq> 0" and wf: "wf_l2 s ll"
    using ok by (simp_all add: queue_ok_def ll_def)
  have ll0: "ll \<noteq> 0" using wf by (simp add: wf_l2_def list_blocks_ok_def)
  have len: "unat (ll_size (lists s ll)) = Suc (length xs)"
    using v unat_size_values [of s ll] by (simp add: queue_values_def ll_def)
  then have ne: "ll_size (lists s ll) \<noteq> 0" by (auto simp: unat_eq_0 [symmetric])
  have pos: "0 < ll_size (lists s ll)" using ne by (simp add: word_neq_0_conv)
  have ns: "ll_nodes s ll = hd # first_nodes (nodes s) (node_next (nodes s hd)) (length xs)"
    by (simp add: ll_nodes_def len hd_def)
  have x: "node_data (nodes s hd) = x"
    and xs: "map (\<lambda>p. node_data (nodes s p)) (tl (ll_nodes s ll)) = xs"
    using v by (simp_all add: queue_values_def ll_values_def ll_def [symmetric] ns)
  define s1 where "s1 = s\<lparr>live := next_block s # live s,
                iters := (iters s)(next_block s :=
                  \<lparr>it_ll = ll, it_current_node = hd, it_current_index = 0,
                   it_data = node_data (nodes s hd)\<rparr>)\<rparr>"
  have it: "linked_list_create_iterator s ll 0 = Inr (next_block s, s1)"
    using l2_create_iterator_front [OF wf good_alloc_fresh [OF ga] ne]
    by (simp add: s1_def hd_def)
  have q: "next_block s \<noteq> 0" using good_alloc_fresh [OF ga] by (simp add: fresh_answer_def)
  have nxt: "queue_next s queue d0 = Inr (True, x, s1)"
    using q0 ll0 pos q it
    by (simp add: queue_next_def queue_has_next_def queue_size_def linked_list_size_def
        ll_def [symmetric] bindf_def) (simp add: s1_def x)
  have nodes1: "ll_nodes s1 ll = ll_nodes s ll" by (simp add: ll_nodes_def s1_def)
  have wf1: "wf_l2 s1 ll"
    using wf by (auto simp: wf_l2_def list_blocks_ok_def nodes1) (auto simp: s1_def)
  have ga1: "good_alloc s1" using ga by (simp add: good_alloc_def s1_def)
  have ne1: "ll_size (lists s1 ll) \<noteq> 0" using ne by (simp add: s1_def)
  from l2_remove_front [OF wf1 ga1 ne1] obtain s' where
    run: "linked_list_remove s1 ll 0 = Inr (True, s')" and wf': "wf_l2 s' ll" and
    ns': "ll_nodes s' ll = tl (ll_nodes s1 ll)" and n': "nodes s' = nodes s1" and
    hd': "ll_head (lists s' ll) = node_next (nodes s1 (ll_head (lists s1 ll)))" and
    sz': "ll_size (lists s' ll) = ll_size (lists s1 ll) - 1" and
    frame: "ll_malloc_fptr s' = ll_malloc_fptr s1" "ll_free_fptr s' = ll_free_fptr s1"
      "q_malloc_fptr s' = q_malloc_fptr s1" "q_free_fptr s' = q_free_fptr s1"
      "queues s' = queues s1"
    by blast
  have s1_same: "nodes s1 = nodes s" "lists s1 = lists s" "queues s1 = queues s"
    "ll_malloc_fptr s1 = ll_malloc_fptr s" "ll_free_fptr s1 = ll_free_fptr s"
    "q_malloc_fptr s1 = q_malloc_fptr s" "q_free_fptr s1 = q_free_fptr s"
    by (simp_all add: s1_def)
  have pop: "queue_pop s queue d0 = Inr (True, x, s')"
    using q0 nxt run by (simp add: queue_pop_def bindf_def s1_same ll_def [symmetric])
  have ga': "good_alloc s'" using ga frame by (simp add: good_alloc_def s1_same)
  have vals': "queue_values s' queue = xs"
    using xs by (simp add: queue_values_def ll_values_def frame s1_same ll_def [symmetric] ns' n' nodes1)
  have size': "queue_size s' queue = queue_size s queue - 1"
    using q0 ll0 by (simp add: queue_size_def linked_list_size_def frame s1_same ll_def [symmetric] sz')
  have en: "ends_null s ll \<longrightarrow> ends_null s' ll"
  proof
    assume "ends_null s ll"
    then have "nth_link (nodes s) (node_next (nodes s hd)) (length xs) = 0"
      by (simp add: ends_null_def len hd_def)
    moreover have "unat (ll_size (lists s' ll)) = length xs"
      using len by (simp add: sz' s1_same unat_minus_one ne)
    ultimately show "ends_null s' ll"
      by (simp add: ends_null_def hd' n' s1_same hd_def)
  qed
  show ?thesis
    using pop wf' ga' vals' size' en q0 frame
    by (simp add: queue_ok_def s1_same ll_def [symmetric])
qed

lemma fold_max_ge: "x \<in> set L \<Longrightarrow> x \<le> fold max L (a::nat)"
proof (induction L arbitrary: a)
  case Nil
  then show ?case by simp
next
  case (Cons y L)
  have mono: "\<And>b. b \<le> fold max L b"
  proof -
    fix b :: nat
    show "b \<le> fold max L b"
      using Max.set_eq_fold [of b L] by (metis List.finite_set Max_ge list.set_intros(1))
  qed
  show ?case
  proof (cases "x = y")
    case True
    then show ?thesis using mono [of "max y a"] by simp
  next
    case False
    then show ?thesis using Cons by simp
  qed
qed

lemma good_fresh_malloc: "good_malloc fresh_malloc"
  unfolding good_malloc_def fresh_malloc_def
  using fold_max_ge by (metis Suc_eq_plus1 Suc_n_not_le_n nat.distinct(1) add_eq_0_iff_both_eq_0 zero_neq_one)

lemma good_plain_free: "good_free plain_free"
  by (auto simp: good_free_def plain_free_def)

lemma good_custom_free: "good_free custom_free"
  by (auto simp: good_free_def custom_free_def)

lemma size_room: "unat x < 2 ^ 64 - 1 \<Longrightarrow> x \<noteq> SIZE_MAX" for x :: size_t
  by (auto simp: SIZE_MAX_def unsigned_minus_1_eq_mask mask_eq_exp_minus_1)

lemma queue_create_ok:
  assumes ga: "good_alloc s" and gq: "good_queue_alloc s"
  shows "\<exists>queue s'. queue_create s = Inr (queue, s') \<and> queue_ok s' queue \<and>
           queue_values s' queue = [] \<and> ends_null s' (q_ll (queues s' queue)) \<and>
           good_alloc s' \<and> good_queue_alloc s'"
proof -
  obtain m f where m: "q_malloc_fptr s = Some m" "good_malloc m"
    using gq by (auto simp: good_queue_alloc_def)
  define qp where "qp = m (live s)"
  have qp0: "qp \<noteq> 0" using m by (simp add: good_malloc_def qp_def)
  define s1 where "s1 = s\<lparr>live := qp # live s\<rparr>"
  have c1: "call_malloc (q_malloc_fptr s) s = Inr (qp, s1)"
    using qp0 by (simp add: call_malloc_def m qp_def [symmetric] s1_def)
  have ga1: "good_alloc s1" using ga by (simp add: good_alloc_def s1_def)
  define l where "l = next_block s1"
  have l0: "l \<noteq> 0" using good_alloc_fresh [OF ga1] by (simp add: fresh_answer_def l_def)
  define s2 where "s2 = set_ll_size l 0 (set_ll_tail l 0 (set_ll_head l 0 (s1\<lparr>live := l # live s1\<rparr>)))"
  have c2: "linked_list_create s1 = Inr (l, s2)"
    using l0 by (simp add: linked_list_create_def call_malloc_fresh [OF good_alloc_fresh [OF ga1]]
        bindf_def l_def [symmetric] s2_def)
  define s' where "s' = s2\<lparr>queues := (queues s2)(qp := (queues s2 qp)\<lparr>q_ll := l\<rparr>)\<rparr>"
  have run: "queue_create s = Inr (qp, s')"
    using qp0 by (simp add: queue_create_def c1 c2 bindf_def s'_def)
  have ql: "q_ll (queues s' qp) = l" by (simp add: s'_def)
  have sz: "ll_size (lists s' l) = 0" "ll_head (lists s' l) = 0"
    by (simp_all add: s'_def s2_def)
  have nodes: "ll_nodes s' l = []" by (simp add: ll_nodes_def sz)
  have "queue_ok s' qp"
    using qp0 l0 by (simp add: queue_ok_def ql wf_l2_def list_blocks_ok_def nodes)
  moreover have "queue_values s' qp = []"
    by (simp add: queue_values_def ll_values_def ql nodes)
  moreover have "ends_null s' (q_ll (queues s' qp))"
    by (simp add: ends_null_def ql sz)
  moreover have "good_alloc s'" using ga by (simp add: good_alloc_def s'_def s2_def s1_def)
  moreover have "good_queue_alloc s'"
    using gq by (simp add: good_queue_alloc_def s'_def s2_def s1_def)
  ultimately show ?thesis using run by blast
qed

lemma push_all_ok:
  assumes "queue_ok s queue" and "good_alloc s"
    and "length (queue_values s queue) + length vs < 2 ^ 64"
  shows "\<exists>s'. push_all s queue vs = Inr (replicate (length vs) True, s') \<and>
           queue_ok s' queue \<and> good_alloc s' \<and>
           queue_values s' queue = queue_values s queue @ vs"
  using assms
proof (induction vs arbitrary: s)
  case Nil
  then show ?case by simp
next
  case (Cons v vs)
  have q0: "queue \<noteq> 0" and l0: "q_ll (queues s queue) \<noteq> 0"
    using Cons.prems(1) by (simp_all add: queue_ok_def wf_l2_def list_blocks_ok_def)
  have "unat (queue_size s queue) = length (queue_values s queue)"
    using q0 l0 by (simp add: queue_size_def linked_list_size_def queue_values_def unat_size_values)
  then have room: "queue_size s queue \<noteq> SIZE_MAX"
    using Cons.prems(3) by (intro size_room) simp
  from queue_push_ok [OF Cons.prems(1,2) room, of v] obtain s1 where
    p: "queue_push s queue v = Inr (True, s1)" and ok1: "queue_ok s1 queue" and
    ga1: "good_alloc s1" and v1: "queue_values s1 queue = queue_values s queue @ [v]"
    by blast
  have len: "length (queue_values s1 queue) + length vs < 2 ^ 64"
    using Cons.prems(3) by (simp add: v1)
  from Cons.IH [OF ok1 ga1 len] obtain s' where
    r: "push_all s1 queue vs = Inr (replicate (length vs) True, s')" and
    rest: "queue_ok s' queue" "good_alloc s'" "queue_values s' queue = queue_values s1 queue @ vs"
    by blast
  show ?case using p r rest by (simp add: bindf_def v1)
qed

lemma pop_n_ok:
  assumes "queue_ok s queue" and "good_alloc s" and "k \<le> length (queue_values s queue)"
  shows "\<exists>s'. pop_n s queue k =
             Inr (map (\<lambda>i. (True, queue_values s queue ! i,
                              of_nat (length (queue_values s queue) - Suc i))) [0..<k], s') \<and>
           queue_ok s' queue \<and> good_alloc s' \<and>
           queue_values s' queue = drop k (queue_values s queue)"
  using assms
proof (induction k arbitrary: s)
  case 0
  then show ?case by simp
next
  case (Suc k)
  then obtain x xs where v: "queue_values s queue = x # xs"
    by (cases "queue_values s queue") auto
  from queue_pop_ok [OF Suc.prems(1,2) v, of 0] obtain s1 where
    p: "queue_pop s queue 0 = Inr (True, x, s1)" and ok1: "queue_ok s1 queue" and
    ga1: "good_alloc s1" and v1: "queue_values s1 queue = xs"
    by blast
  have q0: "queue \<noteq> 0" and l0: "q_ll (queues s1 queue) \<noteq> 0"
    using ok1 by (simp_all add: queue_ok_def wf_l2_def list_blocks_ok_def)
  have sz: "queue_size s1 queue = of_nat (length xs)"
    using queue_size_values [OF q0 l0] by (simp add: v1)
  have k: "k \<le> length (queue_values s1 queue)" using Suc.prems(3) by (simp add: v v1)
  from Suc.IH [OF ok1 ga1 k] obtain s' where
    r: "pop_n s1 queue k =
          Inr (map (\<lambda>i. (True, xs ! i, of_nat (length xs - Suc i))) [0..<k], s')" and
    rest: "queue_ok s' queue" "good_alloc s'" "queue_values s' queue = drop k xs"
    by (auto simp: v1)
  have "map (\<lambda>i. (True, (x # xs) ! i, (of_nat (length (x # xs) - Suc i) :: size_t))) [0..<Suc k]
        = (True, x, of_nat (length xs)) # map (\<lambda>i. (True, xs ! i, of_nat (length xs - Suc i))) [0..<k]"
    by (simp only: upt_rec [of 0 "Suc k"] map_Suc_upt [symmetric]) (simp add: comp_def)
  then show ?case using p r rest by (simp add: bindf_def v sz del: upt_Suc)
qed

lemma good_alloc_registered:
  "good_malloc m \<Longrightarrow> good_free f \<Longrightarrow>
   good_alloc (registered (Some m) (Some f) h) \<and> good_queue_alloc (registered (Some m) (Some f) h)"
  by (simp add: good_alloc_def good_queue_alloc_def registered_def queue_register_free_def
      queue_register_malloc_def linked_list_register_free_def linked_list_register_malloc_def
      program_start_def)

lemma ready_good: "good_alloc ready \<and> good_queue_alloc ready"
  unfolding ready_def by (rule good_alloc_registered [OF good_fresh_malloc good_plain_free])

section \<open>Evaluating runs\<close>

lemmas run_defs =
  registered_def queue_register_free_def queue_register_malloc_def
  linked_list_register_free_def linked_list_register_malloc_def program_start_def
  fresh_malloc_def one_shot_malloc_def plain_free_def custom_free_def
  bindf_def call_malloc_def call_free_def
  set_node_data_def set_node_next_def set_ll_head_def set_ll_tail_def set_ll_size_def
  linked_list_size_def SIZE_MAX_def Let_def word_le_nat_alt word_less_nat_alt

lemma first_nodes_2: "first_nodes h p 2 = [p, node_next (h p)]"
  by (simp add: numeral_2_eq_2)

lemma nth_link_2: "nth_link h p 2 = node_next (h (node_next (h p)))"
  by (simp add: numeral_2_eq_2)

lemmas example_defs =
  ready_def zero_nodes_def outcome_state_def list_of_5_l2_def list_of_5_l1_def
  linked_list_create_def linked_list_create_l1_def linked_list_insert_end_def
  linked_list_insert_end_l1_def linked_list_insert_def linked_list_insert_l1_def

lemma list_of_5_7_ok:
  "fresh_answer list_of_5_7 \<and> wf_l1 list_of_5_7 1 \<and> wf_l2 list_of_5_7 1 \<and>
   ll_values list_of_5_7 1 = [5, 7] \<and> linked_list_size list_of_5_7 1 = 2 \<and>
   ll_size (lists list_of_5_7 1) \<noteq> SIZE_MAX"
  by (simp add: list_of_5_7_def example_defs run_defs fresh_answer_def next_block_def wf_l1_def
      wf_l2_def list_blocks_ok_def ends_null_def ll_nodes_def ll_values_def first_nodes_2
      nth_link_2)

lemma list_of_5_exhausted_ok:
  "ll_malloc_fptr list_of_5_exhausted \<noteq> None \<and> next_block list_of_5_exhausted = 0 \<and>
   linked_list_size list_of_5_exhausted 1 = 1"
  by (simp add: list_of_5_exhausted_def exhausted_malloc_def example_defs run_defs next_block_def)

section \<open>Lemmas about \<open>add_edge\<close>\<close>

lemma add_edge_new:
  assumes "unat i < length rows" and "rows ! unat i = None" and "libc 0" and "libc 1"
  shows "add_edge libc junk rows i j =
         Inr (rows[unat i := Some \<lparr>row_size = 1, adjacent_nodes = j # map junk [1..<16],
                                    visited = False\<rparr>])"
  using assms by (simp add: add_edge_def upt_rec [of 0 16])

lemma add_edge_fits:
  assumes "unat i < length rows" and "rows ! unat i = Some r" and "row_size r mod 16 \<noteq> 15"
    and "unat (row_size r) < length (adjacent_nodes r)"
  shows "add_edge libc junk rows i j =
         Inr (rows[unat i := Some (r\<lparr>adjacent_nodes := (adjacent_nodes r)[unat (row_size r) := j],
                                     row_size := row_size r + 1\<rparr>)])"
  using assms by (simp add: add_edge_def Let_def)

lemma add_edge_grows:
  assumes "unat i < length rows" and "rows ! unat i = Some r" and "row_size r mod 16 = 15"
    and "libc 0" and "unat (row_size r) < length (adjacent_nodes r)"
    and "length (adjacent_nodes r) \<le> realloc_slots (row_size r)"
  shows "add_edge libc junk rows i j =
         Inr (rows[unat i := Some (r\<lparr>adjacent_nodes :=
                 (adjacent_nodes r @ map junk [length (adjacent_nodes r)..<realloc_slots (row_size r)])
                   [unat (row_size r) := j],
                 row_size := row_size r + 1\<rparr>)])"
  using assms by (simp add: add_edge_def Let_def)




lemma unat_size_mod_16: "(z mod 16 = 15) = (unat z mod 16 = 15)" for z :: size_t
proof -
  have "(z mod 16 = 15) = (unat (z mod 16) = unat (15 :: size_t))"
    by (simp only: word_unat_eq_iff)
  also have "\<dots> = (unat z mod 16 = 15)"
    by (simp add: unat_mod)
  finally show ?thesis .
qed

lemma unat_size_plus_17:
  "4 * (unat z + 17) < 2 ^ 64 \<Longrightarrow> realloc_slots z = unat z + 17 \<and> unat (z + 1) = unat z + 1"
  for z :: size_t
  by (simp add: realloc_slots_def unat_word_ariths)

lemma below_next_block: "k < 16 * (k div 16 + 1)" for k :: nat
proof -
  define q where "q = k div 16"
  define r where "r = k mod 16"
  have "k = 16 * q + r" and "r < 16" by (simp_all add: q_def r_def)
  then have "k < 16 * (q + 1)" by simp
  then show ?thesis by (simp only: q_def)
qed

lemma next_block_size:
  "16 * (Suc k div 16 + 1) = (if k mod 16 = 15 then k + 17 else 16 * (k div 16 + 1))"
proof (cases "k mod 16 = 15")
  case True
  have k: "k = 16 * (k div 16) + 15" using True div_mult_mod_eq [of k 16] by simp
  have "Suc k div 16 = Suc (k div 16)" using True by (simp add: div_Suc mod_Suc)
  then show ?thesis using True k by simp
next
  case False
  then have "Suc k div 16 = k div 16" by (simp add: div_Suc mod_Suc)
  then show ?thesis using False by simp
qed

lemma add_edges_existing:
  assumes "unat i < length rows" and "rows ! unat i = Some r" and "libc 0"
    and "unat (row_size r) = k" and "1 \<le> k" and "4 * (k + length js + 17) < 2 ^ 64"
    and "take k (adjacent_nodes r) = vs"
    and "length (adjacent_nodes r) = 16 * (k div 16 + 1)"
  shows "\<exists>rows' r'.
           add_edges libc junk rows i js = Inr rows' \<and> rows' ! unat i = Some r' \<and>
           unat (row_size r') = k + length js \<and>
           take (k + length js) (adjacent_nodes r') = vs @ js \<and>
           length (adjacent_nodes r') = 16 * ((k + length js) div 16 + 1) \<and>
           edge_capacities libc junk rows i js
             = map (\<lambda>m. 16 * (m div 16 + 1)) [Suc k..<Suc (k + length js)]"
  using assms
proof (induction js arbitrary: rows r k vs)
  case Nil
  then show ?case by simp
next
  case (Cons j js)
  define arr where "arr = (if k mod 16 = 15
      then adjacent_nodes r @ map junk [length (adjacent_nodes r)..<k + 17]
      else adjacent_nodes r)"
  define r1 where "r1 = r\<lparr>adjacent_nodes := arr[k := j], row_size := row_size r + 1\<rparr>"
  define rows1 where "rows1 = rows[unat i := Some r1]"
  have k17: "4 * (unat (row_size r) + 17) < 2 ^ 64" using Cons.prems(4,6) by simp
  have u: "realloc_slots (row_size r) = k + 17" "unat (row_size r + 1) = k + 1"
    using unat_size_plus_17 [OF k17] Cons.prems(4) by simp_all
  have klt: "k < length (adjacent_nodes r)"
    unfolding Cons.prems(8) by (rule below_next_block)
  then have klt': "unat (row_size r) < length (adjacent_nodes r)"
    by (simp add: Cons.prems(4))
  have step: "add_edge libc junk rows i j = Inr rows1"
  proof (cases "k mod 16 = 15")
    case True
    then have g: "row_size r mod 16 = 15" by (simp add: unat_size_mod_16 Cons.prems(4))
    have le: "length (adjacent_nodes r) \<le> realloc_slots (row_size r)"
      unfolding u Cons.prems(8) using next_block_size [of k] True by simp
    show ?thesis
      using add_edge_grows [where libc = libc and junk = junk and j = j,
          OF Cons.prems(1,2) g Cons.prems(3) klt' le, unfolded u Cons.prems(4)] True
      by (simp add: rows1_def r1_def arr_def)
  next
    case False
    then have g: "row_size r mod 16 \<noteq> 15" by (simp add: unat_size_mod_16 Cons.prems(4))
    show ?thesis
      using add_edge_fits [where libc = libc and junk = junk and j = j,
          OF Cons.prems(1,2) g klt', unfolded Cons.prems(4)] False
      by (simp add: rows1_def r1_def arr_def)
  qed
  have len_arr: "length arr = 16 * (Suc k div 16 + 1)"
  proof (cases "k mod 16 = 15")
    case True
    have "length (adjacent_nodes r) \<le> k + 17"
      unfolding Cons.prems(8) using next_block_size [of k] True by simp
    then have "length arr = k + 17" using True by (simp add: arr_def)
    then show ?thesis by (simp only: next_block_size True simp_thms if_True)
  next
    case False
    then have "length arr = 16 * (k div 16 + 1)" by (simp add: arr_def Cons.prems(8))
    then show ?thesis by (simp only: next_block_size False simp_thms if_False)
  qed
  have tk: "take k arr = vs"
    using klt Cons.prems(7) by (simp add: arr_def)
  have karr: "k < length arr" using klt by (simp add: arr_def)
  have a1: "unat i < length rows1" using Cons.prems(1) by (simp add: rows1_def)
  have a2: "rows1 ! unat i = Some r1" using Cons.prems(1) by (simp add: rows1_def)
  have a4: "unat (row_size r1) = Suc k" by (simp add: r1_def u)
  have a5: "1 \<le> Suc k" by simp
  have a6: "4 * (Suc k + length js + 17) < 2 ^ 64" using Cons.prems(6) by simp
  have a7: "take (Suc k) (adjacent_nodes r1) = vs @ [j]"
    using karr tk by (simp add: r1_def take_Suc_conv_app_nth)
  have a8: "length (adjacent_nodes r1) = 16 * (Suc k div 16 + 1)"
    by (simp add: r1_def len_arr)
  from Cons.IH [where rows = rows1 and r = r1 and k = "Suc k" and vs = "vs @ [j]",
      OF a1 a2 Cons.prems(3) a4 a5 a6 a7 a8] obtain rows' r' where
    rest: "add_edges libc junk rows1 i js = Inr rows'" "rows' ! unat i = Some r'"
      "unat (row_size r') = Suc k + length js"
      "take (Suc k + length js) (adjacent_nodes r') = (vs @ [j]) @ js"
      "length (adjacent_nodes r') = 16 * ((Suc k + length js) div 16 + 1)"
      "edge_capacities libc junk rows1 i js
         = map (\<lambda>m. 16 * (m div 16 + 1)) [Suc (Suc k)..<Suc (Suc k + length js)]"
    by blast
  have caps: "edge_capacities libc junk rows i (j # js)
        = map (\<lambda>m. 16 * (m div 16 + 1)) [Suc k..<Suc (k + length (j # js))]"
  proof -
    have up: "[Suc k..<Suc (k + length (j # js))] = Suc k # [Suc (Suc k)..<Suc (Suc k + length js)]"
      using upt_conv_Cons [of "Suc k" "Suc (Suc k + length js)"] by (simp del: upt_Suc)
    show ?thesis
      by (simp only: edge_capacities.simps step sum.case a2 option.case a8 rest(6) up list.map)
  qed
  show ?case
    using rest(1-5) caps by (simp add: step bindf_def del: edge_capacities.simps)
qed


lemma capacities_2_to_17:
  "map (\<lambda>m. 16 * (m div 16 + 1)) [Suc 1..<Suc (1 + 16)] = replicate 14 (16::nat) @ [32, 32]"
  by code_simp

section \<open>Lemmas about the search\<close>

lemma fixed_graph_rows:
  "fixed_graph junk =
     [None,
      Some \<lparr>row_size = 1, adjacent_nodes = 2 # map junk [1..<16], visited = False\<rparr>,
      Some \<lparr>row_size = 1, adjacent_nodes = 3 # map junk [1..<16], visited = False\<rparr>,
      Some \<lparr>row_size = 1, adjacent_nodes = 4 # map junk [1..<16], visited = False\<rparr>,
      None]"
  unfolding fixed_graph_def granted_def by code_simp

lemma queue_delete_empty:
  assumes ok: "queue_ok s queue" and e: "queue_values s queue = []"
    and en: "ends_null s (q_ll (queues s queue))"
    and ga: "good_alloc s" and gq: "good_queue_alloc s"
  shows "\<exists>s'. queue_delete s queue = Some (Inr (True, s'))"
proof -
  define ll where "ll = q_ll (queues s queue)"
  have q0: "queue \<noteq> 0" and ll0: "ll \<noteq> 0"
    using ok by (simp_all add: queue_ok_def wf_l2_def list_blocks_ok_def ll_def)
  have "unat (ll_size (lists s ll)) = 0"
    using e unat_size_values [of s ll] by (simp add: queue_values_def ll_def)
  then have hd: "ll_head (lists s ll) = 0" using en by (simp add: ends_null_def ll_def)
  have dl: "delete_loop s 0 = Some (Inr s)" by (subst delete_loop.simps) simp
  obtain f where f: "ll_free_fptr s = Some f" using ga by (auto simp: good_alloc_def)
  obtain g where g: "q_free_fptr s = Some g" using gq by (auto simp: good_queue_alloc_def)
  show ?thesis
    using q0 ll0
    by (simp add: queue_delete_def linked_list_delete_def ll_def [symmetric] hd dl call_free_def
        f g bindf_def)
qed

lemma bfs_loop_found:
  "bfs_loop rows s queue j True next_node node_count =
   Some (Inr (False, True, node_count, rows, s))"
  by (subst bfs_loop.simps) simp

text \<open>One round of the search loop on an unvisited row with a single edge and an empty queue.\<close>

lemma bfs_loop_single_edge:
  assumes ok: "queue_ok s queue" and e: "queue_values s queue = []"
    and en: "ends_null s (q_ll (queues s queue))"
    and ga: "good_alloc s" and gq: "good_queue_alloc s"
    and n: "unat n < length rows"
    and r: "rows ! unat n = Some \<lparr>row_size = 1, adjacent_nodes = d # ds, visited = False\<rparr>"
  shows "\<exists>s'. bfs_loop rows s queue j False n c =
              bfs_loop (rows[unat n := Some \<lparr>row_size = 1, adjacent_nodes = d # ds, visited = True\<rparr>])
                s' queue j (j = d) d (c + 1) \<and>
            queue_ok s' queue \<and> queue_values s' queue = [] \<and>
            ends_null s' (q_ll (queues s' queue)) \<and> good_alloc s' \<and> good_queue_alloc s'"
proof -
  have q0: "queue \<noteq> 0" and l0: "q_ll (queues s queue) \<noteq> 0"
    using ok by (simp_all add: queue_ok_def wf_l2_def list_blocks_ok_def)
  have "queue_size s queue = 0"
    using queue_size_values [OF q0 l0] e by simp
  then have room: "queue_size s queue \<noteq> SIZE_MAX" by (simp add: SIZE_MAX_def)
  from queue_push_ok [OF ok ga room, of d] obtain s1 where
    push: "queue_push s queue d = Inr (True, s1)" and ok1: "queue_ok s1 queue" and
    ga1: "good_alloc s1" and v1: "queue_values s1 queue = [d]" and
    en1: "ends_null s1 (q_ll (queues s1 queue))" and
    fr1: "q_malloc_fptr s1 = q_malloc_fptr s" "q_free_fptr s1 = q_free_fptr s"
    using e en by auto
  from queue_pop_ok [OF ok1 ga1 v1, of n] obtain s2 where
    pop: "queue_pop s1 queue n = Inr (True, d, s2)" and ok2: "queue_ok s2 queue" and
    ga2: "good_alloc s2" and v2: "queue_values s2 queue = []" and
    en2: "ends_null s2 (q_ll (queues s2 queue))" and
    fr2: "q_malloc_fptr s2 = q_malloc_fptr s1" "q_free_fptr s2 = q_free_fptr s1"
    using en1 by auto
  have gq2: "good_queue_alloc s2" using gq by (simp add: good_queue_alloc_def fr1 fr2)
  have row: "bfs_row_loop \<lparr>row_size = 1, adjacent_nodes = d # ds, visited = True\<rparr> j queue
               (Suc 0) 0 False s = Inr (True, j = d, s1)"
    by (simp add: push bindf_def)
  have "bfs_loop rows s queue j False n c =
        bfs_loop (rows[unat n := Some \<lparr>row_size = 1, adjacent_nodes = d # ds, visited = True\<rparr>])
          s2 queue j (j = d) d (c + 1)"
    using n by (subst bfs_loop.simps) (simp add: r row pop del: bfs_row_loop.simps)
  then show ?thesis using ok2 v2 en2 ga2 gq2 by blast
qed


lemma bfs_run_1_4:
  assumes ga: "good_alloc s" and gq: "good_queue_alloc s"
  shows "\<exists>rows1 s1. breadth_first_search (fixed_graph junk) s 1 4
                      = Some (Inr (True, Some 3, rows1, s1))"
proof -
  define e1 where "e1 = (2::uint) # map junk [1..<16]"
  define e2 where "e2 = (3::uint) # map junk [1..<16]"
  define e3 where "e3 = (4::uint) # map junk [1..<16]"
  define G0 where "G0 = [None, Some \<lparr>row_size = 1, adjacent_nodes = e1, visited = False\<rparr>,
      Some \<lparr>row_size = 1, adjacent_nodes = e2, visited = False\<rparr>,
      Some \<lparr>row_size = 1, adjacent_nodes = e3, visited = False\<rparr>, None]"
  define G1 where "G1 = [None, Some \<lparr>row_size = 1, adjacent_nodes = e1, visited = True\<rparr>,
      Some \<lparr>row_size = 1, adjacent_nodes = e2, visited = False\<rparr>,
      Some \<lparr>row_size = 1, adjacent_nodes = e3, visited = False\<rparr>, None]"
  define G2 where "G2 = [None, Some \<lparr>row_size = 1, adjacent_nodes = e1, visited = True\<rparr>,
      Some \<lparr>row_size = 1, adjacent_nodes = e2, visited = True\<rparr>,
      Some \<lparr>row_size = 1, adjacent_nodes = e3, visited = False\<rparr>, None]"
  define G3 where "G3 = [None, Some \<lparr>row_size = 1, adjacent_nodes = e1, visited = True\<rparr>,
      Some \<lparr>row_size = 1, adjacent_nodes = e2, visited = True\<rparr>,
      Some \<lparr>row_size = 1, adjacent_nodes = e3, visited = True\<rparr>, None]"
  have fg: "fixed_graph junk = G0"
    by (simp add: fixed_graph_rows G0_def e1_def e2_def e3_def)
  have n1: "unat (1::uint) < length G0"
    and r1: "G0 ! unat (1::uint) = Some \<lparr>row_size = 1, adjacent_nodes = 2 # map junk [1..<16], visited = False\<rparr>"
    and u1: "G0[unat (1::uint) := Some \<lparr>row_size = 1, adjacent_nodes = 2 # map junk [1..<16], visited = True\<rparr>] = G1"
    unfolding G0_def G1_def e1_def by code_simp+
  have n2: "unat (2::uint) < length G1"
    and r2: "G1 ! unat (2::uint) = Some \<lparr>row_size = 1, adjacent_nodes = 3 # map junk [1..<16], visited = False\<rparr>"
    and u2: "G1[unat (2::uint) := Some \<lparr>row_size = 1, adjacent_nodes = 3 # map junk [1..<16], visited = True\<rparr>] = G2"
    unfolding G1_def G2_def e2_def by code_simp+
  have n3: "unat (3::uint) < length G2"
    and r3: "G2 ! unat (3::uint) = Some \<lparr>row_size = 1, adjacent_nodes = 4 # map junk [1..<16], visited = False\<rparr>"
    and u3: "G2[unat (3::uint) := Some \<lparr>row_size = 1, adjacent_nodes = 4 # map junk [1..<16], visited = True\<rparr>] = G3"
    unfolding G2_def G3_def e3_def by code_simp+
  from queue_create_ok [OF ga gq] obtain queue s0 where
    c: "queue_create s = Inr (queue, s0)" and i0: "queue_ok s0 queue"
      "queue_values s0 queue = []" "ends_null s0 (q_ll (queues s0 queue))"
      "good_alloc s0" "good_queue_alloc s0"
    by blast
  from bfs_loop_single_edge [OF i0 n1 r1, of 4 0] obtain s1 where
    l1: "bfs_loop G0 s0 queue 4 False 1 0 = bfs_loop G1 s1 queue 4 False 2 1" and
    i1: "queue_ok s1 queue" "queue_values s1 queue = []" "ends_null s1 (q_ll (queues s1 queue))"
      "good_alloc s1" "good_queue_alloc s1"
    unfolding u1 by auto
  from bfs_loop_single_edge [OF i1 n2 r2, of 4 1] obtain s2 where
    l2: "bfs_loop G1 s1 queue 4 False 2 1 = bfs_loop G2 s2 queue 4 False 3 2" and
    i2: "queue_ok s2 queue" "queue_values s2 queue = []" "ends_null s2 (q_ll (queues s2 queue))"
      "good_alloc s2" "good_queue_alloc s2"
    unfolding u2 by auto
  from bfs_loop_single_edge [OF i2 n3 r3, of 4 2] obtain s3 where
    l3: "bfs_loop G2 s2 queue 4 False 3 2 = bfs_loop G3 s3 queue 4 True 4 3" and
    i3: "queue_ok s3 queue" "queue_values s3 queue = []" "ends_null s3 (q_ll (queues s3 queue))"
      "good_alloc s3" "good_queue_alloc s3"
    unfolding u3 by auto
  have loop: "bfs_loop G0 s0 queue 4 False 1 0 = Some (Inr (False, True, 3, G3, s3))"
    by (simp only: l1 l2 l3 bfs_loop_found)
  from queue_delete_empty [OF i3] obtain s4 where
    d: "queue_delete s3 queue = Some (Inr (True, s4))" by blast
  have "breadth_first_search (fixed_graph junk) s 1 4 = Some (Inr (True, Some 3, G3, s4))"
    by (simp add: breadth_first_search_def fg c loop d)
  then show ?thesis by blast
qed

lemma bfs_run_4_1:
  assumes ga: "good_alloc s" and gq: "good_queue_alloc s"
  shows "\<exists>rows1 s1. breadth_first_search (fixed_graph junk) s 4 1
                      = Some (Inr (False, Some 1, rows1, s1))"
proof -
  have n4: "unat (4::uint) < length (fixed_graph junk)"
    and r4: "fixed_graph junk ! unat (4::uint) = None"
    unfolding fixed_graph_rows by code_simp+
  from queue_create_ok [OF ga gq] obtain queue s0 where
    c: "queue_create s = Inr (queue, s0)" and i0: "queue_ok s0 queue"
      "queue_values s0 queue = []" "ends_null s0 (q_ll (queues s0 queue))"
      "good_alloc s0" "good_queue_alloc s0"
    by blast
  have pop: "queue_pop s0 queue 4 = Inr (False, 4, s0)"
    by (rule queue_pop_empty [OF i0(1,2)])
  have loop: "bfs_loop (fixed_graph junk) s0 queue 1 False 4 0
              = Some (Inr (False, False, 1, fixed_graph junk, s0))"
    using n4 r4 by (subst bfs_loop.simps) (simp add: pop)
  from queue_delete_empty [OF i0] obtain s1 where
    d: "queue_delete s0 queue = Some (Inr (True, s1))" by blast
  have "breadth_first_search (fixed_graph junk) s 4 1
        = Some (Inr (False, Some 1, fixed_graph junk, s1))"
    by (simp add: breadth_first_search_def c loop d)
  then show ?thesis by blast
qed

section \<open>The bump allocator's retry path\<close>

text \<open>
  Claim C1. After a slab is exhausted the allocator opens a slab of twice the size and serves
  the request there; the claim says that the pointer returned is the start of the block just
  served and that no two blocks overlap. The run below starts from the static allocator,
  initialised with a first slab at address 0x1000. A request of 5000 bytes does not fit the
  4096-byte slab; the C library answers 0x10000 for the new slab, which has 8192 bytes. The
  block served is [0x10000, 0x10000 + 5000), but the pointer returned is its end,
  0x10000 + 5000: the retry path returns the slab's cursor. The next request, of 8 bytes,
  returns the same address, so the two blocks handed out overlap.
\<close>

theorem bump_malloc_retry_returns_end_of_block:
  "\<exists>a1 a2 a3.
     bump_ptr_allocator_init 0x1000 static_allocator = Inr (True, a1) \<and>
     bump_ptr_allocator_malloc 0x10000 (Some a1) 5000 = Inr (0x10000 + 5000, a2) \<and>
     slab_ptr a2 = 1 \<and> last_alloc_size a2 = 2 * 4096 \<and>
     slab_data (slabs a2 ! 1) = 0x10000 \<and>
     bump_ptr_allocator_malloc 0 (Some a2) 8 = Inr (0x10000 + 5000, a3)"
  by (simp add: bump_ptr_allocator_init_def bump_ptr_allocator_malloc_def static_allocator_def
      slab_init_def slab_malloc_def align_to_def DEFAULT_ALLOC_SIZE_BYTES_def
      DEFAULT_NUM_SLABS_def zero_slab_def Let_def word_le_nat_alt)

section \<open>The level-2 list invariant\<close>

text \<open>
  Claim C2. The claim says that after any in-bounds sequence of operations on a level-2 list
  \<open>size\<close> is the number of nodes reachable from \<open>head\<close>, the \<open>next\<close> link of the tail node is
  null, and \<open>tail\<close> is null exactly when \<open>size\<close> is 0. Two runs on a fresh list, whatever the
  node memory \<open>h\<close> holds, show what the code does. First run: \<open>insert_front 5\<close>, then
  \<open>remove 0\<close>; the list is empty again (\<open>size = 0\<close>) but \<open>tail\<close> still points to the freed
  node, since the branch of \<open>linked_list_remove\<close> for index 0 never writes \<open>tail\<close>. Second run:
  \<open>insert_end 5\<close>, then \<open>insert_end 6\<close>; the \<open>next\<close> link of the tail node is whatever the
  fresh block (block 3) held before, since the append branch of \<open>linked_list_insert\<close> never
  writes \<open>new_node->next\<close>.
\<close>

theorem level2_tail_invariant_fails:
  "(\<exists>ll s1 s2 s3.
      linked_list_create (registered (Some fresh_malloc) (Some plain_free) h) = Inr (ll, s1) \<and>
      linked_list_insert_front s1 ll 5 = Inr (True, s2) \<and>
      linked_list_remove s2 ll 0 = Inr (True, s3) \<and>
      ll_size (lists s3 ll) = 0 \<and> ll_tail (lists s3 ll) \<noteq> 0) \<and>
   (\<exists>ll s1 s2 s3.
      linked_list_create (registered (Some fresh_malloc) (Some plain_free) h) = Inr (ll, s1) \<and>
      linked_list_insert_end s1 ll 5 = Inr (True, s2) \<and>
      linked_list_insert_end s2 ll 6 = Inr (True, s3) \<and>
      ll_size (lists s3 ll) = 2 \<and>
      node_next (nodes s3 (ll_tail (lists s3 ll))) = node_next (h 3))"
  by (simp add: run_defs linked_list_create_def linked_list_insert_front_def
      linked_list_insert_end_def linked_list_insert_def linked_list_remove_def numeral_3_eq_3)

section \<open>Breadth-first search on the fixed graph\<close>

text \<open>
  Claim C3, as stated, fails in its count: on the graph with the edges 1 to 2, 2 to 3 and
  3 to 4, the search from 1 for 4 returns true and prints a node count of 3, not 4. The
  count goes up once after each of the three pops that follow the expansion of the rows 1, 2
  and 3; the loop ends as soon as the expansion of row 3 has met node 4.
\<close>

theorem bfs_visits_three_not_four:
  "bfs_outcome (breadth_first_search (fixed_graph zero_junk) ready 1 4) = Some (True, Some 3) \<and>
   bfs_outcome (breadth_first_search (fixed_graph zero_junk) ready 1 4) \<noteq> Some (True, Some 4)"
proof -
  from bfs_run_1_4 [of ready zero_junk] ready_good
  have "bfs_outcome (breadth_first_search (fixed_graph zero_junk) ready 1 4) = Some (True, Some 3)"
    by (auto simp: bfs_outcome_def)
  then show ?thesis by simp
qed

text \<open>
  Claim C3, amended. With well-behaved functions registered in the queue and the list
  module, whatever the node memory and the unused adjacency slots hold, the search from 1
  for 4 returns true with a node count of 3, and the search from 4 for 1 returns false (with
  a node count of 1).
\<close>

theorem bfs_fixed_graph:
  assumes "good_alloc s" and "good_queue_alloc s"
  shows "(\<exists>rows1 s1. breadth_first_search (fixed_graph junk) s 1 4
                       = Some (Inr (True, Some 3, rows1, s1))) \<and>
         (\<exists>rows1 s1. breadth_first_search (fixed_graph junk) s 4 1
                       = Some (Inr (False, Some 1, rows1, s1)))"
  using bfs_run_1_4 [OF assms] bfs_run_4_1 [OF assms] by blast

theorem bfs_fixed_graph_witness:
  "good_alloc ready \<and> good_queue_alloc ready \<and>
   bfs_outcome (breadth_first_search (fixed_graph zero_junk) ready 1 4) = Some (True, Some 3) \<and>
   bfs_outcome (breadth_first_search (fixed_graph zero_junk) ready 4 1) = Some (False, Some 1)"
proof -
  have g: "good_alloc ready" "good_queue_alloc ready" using ready_good by simp_all
  from bfs_fixed_graph [OF g, of zero_junk] show ?thesis
    using g by (auto simp: bfs_outcome_def)
qed

section \<open>The level-1 iterator\<close>

text \<open>
  Claim C4. The claim says that \<open>create_iterator(list, index)\<close> with \<open>index < size\<close> returns an
  iterator whose current node and cached data are those of position \<open>index\<close>. On the level-1
  list holding 10 and 20, \<open>linked_list_create_iterator\<close> at index 1 returns an iterator with
  \<open>current_index = 1\<close> whose current node is the head and whose data is 10, the element at
  position 0: after its walk the function takes \<open>prev\<close>, the node before the position reached.
\<close>

theorem level1_iterator_one_before:
  "\<exists>ll s1 s2 s3 iter s4.
      linked_list_create_l1 (registered (Some fresh_malloc) (Some plain_free) h) = Inr (ll, s1) \<and>
      linked_list_insert_end_l1 s1 ll 10 = Inr (True, s2) \<and>
      linked_list_insert_end_l1 s2 ll 20 = Inr (True, s3) \<and>
      ll_values s3 ll = [10, 20] \<and>
      linked_list_create_iterator_l1 s3 ll 1 = Inr (iter, s4) \<and> iter \<noteq> 0 \<and>
      it_current_index (iters s4 iter) = 1 \<and>
      it_current_node (iters s4 iter) = ll_head (lists s4 ll) \<and>
      it_data (iters s4 iter) = 10"
  by (simp add: run_defs linked_list_create_l1_def linked_list_insert_end_l1_def
      linked_list_insert_l1_def linked_list_create_iterator_l1_def ll_values_def ll_nodes_def
      first_nodes_2)

section \<open>Creating a queue when memory runs out\<close>

text \<open>
  Claim C5. The claim says that \<open>queue_create\<close> returns null whenever an allocation under it
  fails, also when the queue header was allocated and the creation of the list fails. With
  an allocator that has memory for one block only, the header is allocated,
  \<open>linked_list_create\<close> returns null, and \<open>queue_create\<close> returns the non-null header with a
  null list pointer stored in it.
\<close>

theorem queue_create_half_built:
  "\<exists>queue s1.
      queue_create (registered (Some one_shot_malloc) (Some plain_free) h) = Inr (queue, s1) \<and>
      queue \<noteq> 0 \<and> q_ll (queues s1 queue) = 0"
  by (simp add: run_defs queue_create_def linked_list_create_def)

section \<open>Creating a list before registration\<close>

text \<open>
  Claim C6. The claim says that in both list variants \<open>create\<close> returns null when the
  allocate or the free function has not been registered. With only \<open>malloc\<close> registered, the
  level-2 \<open>linked_list_create\<close> returns a non-null list (the free pointer is still null
  afterwards); with nothing registered it calls the null \<open>malloc\<close> pointer. The level-1
  \<open>linked_list_create\<close> checks both pointers and returns null, leaving the state as it is.
\<close>

theorem level2_create_without_free:
  "(\<exists>ll s1. linked_list_create (snd (linked_list_register_malloc (program_start h) (Some fresh_malloc)))
       = Inr (ll, s1) \<and> ll \<noteq> 0 \<and> ll_free_fptr s1 = None) \<and>
   linked_list_create (program_start h) = Inl NullCall \<and>
   linked_list_create_l1 (snd (linked_list_register_malloc (program_start h) (Some fresh_malloc)))
       = Inr (0, snd (linked_list_register_malloc (program_start h) (Some fresh_malloc)))"
  by (simp add: run_defs linked_list_create_def linked_list_create_l1_def)

section \<open>The queue is first-in-first-out\<close>

text \<open>
  Claim C7. Take a non-null queue whose list is well formed and empty, with well-behaved
  functions registered in the list module, and push the values \<open>vs\<close> (fewer than \<open>2^64\<close>, so
  that the \<open>size_t\<close> count does not wrap). Every push returns true and \<open>queue_size\<close> becomes
  the number of values pushed. Popping \<open>k\<close> times then succeeds each time, the \<open>i\<close>-th pop
  (from 0) stores the \<open>i\<close>-th value pushed, and \<open>queue_size\<close> after it is one less than
  before: \<open>length vs - 1 - i\<close>.
\<close>

theorem queue_fifo:
  assumes "queue_ok s queue" and "queue_values s queue = []" and "good_alloc s"
    and "length vs < 2 ^ 64" and "k \<le> length vs"
  shows "\<exists>s1 s2.
           push_all s queue vs = Inr (replicate (length vs) True, s1) \<and>
           queue_size s1 queue = of_nat (length vs) \<and>
           pop_n s1 queue k =
             Inr (map (\<lambda>i. (True, vs ! i, of_nat (length vs - Suc i))) [0..<k], s2)"
proof -
  have len: "length (queue_values s queue) + length vs < 2 ^ 64"
    using assms(2,4) by simp
  from push_all_ok [OF assms(1,3) len] obtain s1 where
    push: "push_all s queue vs = Inr (replicate (length vs) True, s1)" and
    ok1: "queue_ok s1 queue" and ga1: "good_alloc s1" and
    v1: "queue_values s1 queue = vs"
    using assms(2) by auto
  have q0: "queue \<noteq> 0" and l0: "q_ll (queues s1 queue) \<noteq> 0"
    using ok1 by (simp_all add: queue_ok_def wf_l2_def list_blocks_ok_def)
  have sz: "queue_size s1 queue = of_nat (length vs)"
    using queue_size_values [OF q0 l0] by (simp add: v1)
  have k: "k \<le> length (queue_values s1 queue)" using assms(5) by (simp add: v1)
  from pop_n_ok [OF ok1 ga1 k] obtain s2 where
    "pop_n s1 queue k =
       Inr (map (\<lambda>i. (True, vs ! i, of_nat (length vs - Suc i))) [0..<k], s2)"
    by (auto simp: v1)
  with push sz show ?thesis by blast
qed

theorem queue_fifo_witness:
  "\<exists>queue s s1 s2.
     queue_create ready = Inr (queue, s) \<and>
     queue_ok s queue \<and> queue_values s queue = [] \<and> good_alloc s \<and>
     push_all s queue [7, 8, 9] = Inr ([True, True, True], s1) \<and>
     queue_size s1 queue = 3 \<and>
     pop_n s1 queue 2 = Inr ([(True, 7, 2), (True, 8, 1)], s2)"
proof -
  have g: "good_alloc ready" "good_queue_alloc ready"
    using ready_good by simp_all
  from queue_create_ok [OF g] obtain queue s where
    c: "queue_create ready = Inr (queue, s)" and ok: "queue_ok s queue" and
    e: "queue_values s queue = []" and ga: "good_alloc s"
    by blast
  have l: "length [7, 8, 9 :: uint] < 2 ^ 64" and k: "(2::nat) \<le> length [7, 8, 9 :: uint]"
    by simp_all
  from queue_fifo [OF ok e ga l k] obtain s1 s2 where
    "push_all s queue [7, 8, 9] = Inr (replicate (length [7, 8, 9 :: uint]) True, s1)"
    "queue_size s1 queue = of_nat (length [7, 8, 9 :: uint])"
    "pop_n s1 queue 2 =
       Inr (map (\<lambda>i. (True, [7, 8, 9] ! i, of_nat (length [7, 8, 9 :: uint] - Suc i))) [0..<2], s2)"
    by blast
  then have "push_all s queue [7, 8, 9] = Inr ([True, True, True], s1) \<and>
     queue_size s1 queue = 3 \<and>
     pop_n s1 queue 2 = Inr ([(True, 7, 2), (True, 8, 1)], s2)"
    by (simp add: numeral_2_eq_2 numeral_3_eq_3)
  with c ok e ga show ?thesis by blast
qed

section \<open>Finding a value just inserted at the end\<close>

text \<open>
  Claim C8, as stated, fails: \<open>find\<close> returns the first occurrence. On the list holding the
  single value 5 (either variant), \<open>insert_end 5\<close> followed by \<open>find 5\<close> returns index 0,
  while the size before the insertion was 1.
\<close>

theorem insert_end_then_find_duplicate:
  "wf_l1 list_of_5_l1 1 \<and> fresh_answer list_of_5_l1 \<and> ll_values list_of_5_l1 1 = [5] \<and>
   insert_end_then_find_l1 list_of_5_l1 1 5 = Some (1, Some 0) \<and>
   wf_l2 list_of_5_l2 1 \<and> fresh_answer list_of_5_l2 \<and> ll_values list_of_5_l2 1 = [5] \<and>
   insert_end_then_find_l2 list_of_5_l2 1 5 = Some (1, Some 0)"
  by (simp add: insert_end_then_find_l1_def insert_end_then_find_l2_def example_defs run_defs
      linked_list_find_def find_loop.simps fresh_answer_def next_block_def wf_l1_def wf_l2_def
      list_blocks_ok_def ends_null_def ll_nodes_def ll_values_def)

text \<open>
  Claim C8, amended. On a well-formed list of either variant, with the registered \<open>malloc\<close>
  answering a fresh block, \<open>insert_end\<close> returns true and the following \<open>find\<close> of the
  inserted value returns the index of the first occurrence of that value in the values of the
  list followed by the inserted value. That index is the size of the list before the insertion
  exactly when the value did not occur in the list before. Unless the size before is the
  greatest value of \<open>size_t\<close>, the values of the list after the insertion are the values
  before followed by the inserted value.
\<close>

theorem insert_end_then_find:
  assumes "fresh_answer s"
  shows "(wf_l1 s ll \<longrightarrow>
            (\<exists>s' r. linked_list_insert_end_l1 s ll d = Inr (True, s') \<and>
                    linked_list_find s' ll d = Some r \<and>
                    unat r = length (takeWhile (\<lambda>x. x \<noteq> d) (ll_values s ll @ [d])) \<and>
                    (r = linked_list_size s ll) = (d \<notin> set (ll_values s ll)) \<and>
                    (ll_size (lists s ll) \<noteq> SIZE_MAX \<longrightarrow>
                       ll_values s' ll = ll_values s ll @ [d]))) \<and>
         (wf_l2 s ll \<longrightarrow>
            (\<exists>s' r. linked_list_insert_end s ll d = Inr (True, s') \<and>
                    linked_list_find s' ll d = Some r \<and>
                    unat r = length (takeWhile (\<lambda>x. x \<noteq> d) (ll_values s ll @ [d])) \<and>
                    (r = linked_list_size s ll) = (d \<notin> set (ll_values s ll)) \<and>
                    (ll_size (lists s ll) \<noteq> SIZE_MAX \<longrightarrow>
                       ll_values s' ll = ll_values s ll @ [d])))"
proof (intro conjI impI)
  assume wf: "wf_l1 s ll"
  then have ok: "list_blocks_ok s ll" by (simp add: wf_l1_def)
  then have ll: "ll \<noteq> 0" by (simp add: list_blocks_ok_def)
  have ib: "ll_size (lists s ll) \<le> linked_list_size s ll"
    using ll by (simp add: linked_list_size_def)
  from insert_l1_links [OF wf assms ib, of d] obtain s' where
    run: "linked_list_insert_end_l1 s ll d = Inr (True, s')" and
    la: "linked_at s ll (ll_size (lists s ll)) d s'" and
    post: "ll_size (lists s ll) \<noteq> SIZE_MAX \<longrightarrow>
             ll_values s' ll = take (unat (ll_size (lists s ll))) (ll_values s ll) @ d #
                               drop (unat (ll_size (lists s ll))) (ll_values s ll)"
    unfolding insert_end_as_insert(2) [OF ll] by blast
  from find_after_insert_end [OF ok assms la post] run
  show "\<exists>s' r. linked_list_insert_end_l1 s ll d = Inr (True, s') \<and>
               linked_list_find s' ll d = Some r \<and>
               unat r = length (takeWhile (\<lambda>x. x \<noteq> d) (ll_values s ll @ [d])) \<and>
               (r = linked_list_size s ll) = (d \<notin> set (ll_values s ll)) \<and>
               (ll_size (lists s ll) \<noteq> SIZE_MAX \<longrightarrow> ll_values s' ll = ll_values s ll @ [d])"
    by blast
next
  assume wf: "wf_l2 s ll"
  then have ok: "list_blocks_ok s ll" by (simp add: wf_l2_def)
  then have ll: "ll \<noteq> 0" by (simp add: list_blocks_ok_def)
  have ib: "ll_size (lists s ll) \<le> linked_list_size s ll"
    using ll by (simp add: linked_list_size_def)
  from insert_l2_links [OF wf assms ib, of d] obtain s' where
    run: "linked_list_insert_end s ll d = Inr (True, s')" and
    la: "linked_at s ll (ll_size (lists s ll)) d s'" and
    post: "ll_size (lists s ll) \<noteq> SIZE_MAX \<longrightarrow>
             ll_values s' ll = take (unat (ll_size (lists s ll))) (ll_values s ll) @ d #
                               drop (unat (ll_size (lists s ll))) (ll_values s ll)"
    unfolding insert_end_as_insert(1) [OF ll] by blast
  from find_after_insert_end [OF ok assms la post] run
  show "\<exists>s' r. linked_list_insert_end s ll d = Inr (True, s') \<and>
               linked_list_find s' ll d = Some r \<and>
               unat r = length (takeWhile (\<lambda>x. x \<noteq> d) (ll_values s ll @ [d])) \<and>
               (r = linked_list_size s ll) = (d \<notin> set (ll_values s ll)) \<and>
               (ll_size (lists s ll) \<noteq> SIZE_MAX \<longrightarrow> ll_values s' ll = ll_values s ll @ [d])"
    by blast
qed

theorem insert_end_then_find_witness:
  "fresh_answer list_of_5_7 \<and> wf_l1 list_of_5_7 1 \<and> wf_l2 list_of_5_7 1 \<and>
   ll_size (lists list_of_5_7 1) \<noteq> SIZE_MAX \<and> ll_values list_of_5_7 1 = [5, 7] \<and>
   (\<exists>s'. linked_list_insert_end_l1 list_of_5_7 1 7 = Inr (True, s') \<and>
         linked_list_find s' 1 7 = Some 1 \<and> ll_values s' 1 = [5, 7, 7]) \<and>
   (\<exists>s'. linked_list_insert_end list_of_5_7 1 7 = Inr (True, s') \<and>
         linked_list_find s' 1 7 = Some 1 \<and> ll_values s' 1 = [5, 7, 7])"
proof -
  have h: "fresh_answer list_of_5_7" "wf_l1 list_of_5_7 1" "wf_l2 list_of_5_7 1"
    and v: "ll_values list_of_5_7 1 = [5, 7]"
    and room: "ll_size (lists list_of_5_7 1) \<noteq> SIZE_MAX"
    using list_of_5_7_ok by simp_all
  have first: "length (takeWhile (\<lambda>x. x \<noteq> 7) ([5, 7] @ [7 :: uint])) = 1" by simp
  from insert_end_then_find [OF h(1), of 1 7] h(2,3) room
  obtain s1 r1 s2 r2 where
    a: "linked_list_insert_end_l1 list_of_5_7 1 7 = Inr (True, s1)"
       "linked_list_find s1 1 7 = Some r1"
       "unat r1 = length (takeWhile (\<lambda>x. x \<noteq> 7) (ll_values list_of_5_7 1 @ [7]))"
       "ll_values s1 1 = ll_values list_of_5_7 1 @ [7]" and
    b: "linked_list_insert_end list_of_5_7 1 7 = Inr (True, s2)"
       "linked_list_find s2 1 7 = Some r2"
       "unat r2 = length (takeWhile (\<lambda>x. x \<noteq> 7) (ll_values list_of_5_7 1 @ [7]))"
       "ll_values s2 1 = ll_values list_of_5_7 1 @ [7]"
    by blast
  have "unat r1 = 1" "unat r2 = 1"
    using a(3) b(3) unfolding v first by simp_all
  then have "r1 = 1" "r2 = 1" by (simp_all add: word_unat_eq_iff)
  moreover have "ll_values s1 1 = [5, 7, 7]" "ll_values s2 1 = [5, 7, 7]"
    using a(4) b(4) unfolding v by simp_all
  ultimately show ?thesis using a(1,2) b(1,2) h room v by simp
qed


section \<open>Seventeen edges from one row\<close>

text \<open>
  Claim C9. Let row \<open>i\<close> be absent and the C library grant every request. After 17 calls of
  \<open>add_edge\<close> with source \<open>i\<close> and the destinations \<open>js\<close>, the row has size 17, the first 17
  slots of its adjacency block are \<open>js\<close> in order, and the block has 32 slots. The block had
  16 slots after each of the first 15 calls and 32 after the 16th and the 17th: it was
  allocated with 16 slots and grown once, in the call that found the size at 15, one less
  than a multiple of 16.
\<close>

theorem add_edge_17_times:
  assumes "unat i < length rows" and "rows ! unat i = None" and "length js = 17"
    and "libc 0" and "libc 1"
  shows "\<exists>rows' r.
           add_edges libc junk rows i js = Inr rows' \<and> rows' ! unat i = Some r \<and>
           row_size r = 17 \<and> take 17 (adjacent_nodes r) = js \<and>
           length (adjacent_nodes r) = 32 \<and>
           edge_capacities libc junk rows i js = replicate 15 16 @ [32, 32]"
proof -
  obtain j js' where js: "js = j # js'" and len: "length js' = 16"
    using assms(3) by (cases js) auto
  define r1 where "r1 = \<lparr>row_size = 1, adjacent_nodes = j # map junk [1..<16], visited = False\<rparr>"
  define rows1 where "rows1 = rows[unat i := Some r1]"
  have step: "add_edge libc junk rows i j = Inr rows1"
    using add_edge_new [where libc = libc and junk = junk and j = j, OF assms(1,2,4,5)]
    by (simp add: rows1_def r1_def)
  have a1: "unat i < length rows1" using assms(1) by (simp add: rows1_def)
  have a2: "rows1 ! unat i = Some r1" using assms(1) by (simp add: rows1_def)
  have a4: "unat (row_size r1) = 1" by (simp add: r1_def)
  have a5: "(1::nat) \<le> 1" by simp
  have a6: "4 * (1 + length js' + 17) < (2::nat) ^ 64" by (simp add: len)
  have a7: "take 1 (adjacent_nodes r1) = [j]" by (simp add: r1_def)
  have a8: "length (adjacent_nodes r1) = 16 * (1 div 16 + 1)" by (simp add: r1_def)
  from add_edges_existing [where libc = libc and junk = junk and rows = rows1 and r = r1
      and k = 1 and vs = "[j]" and js = js', OF a1 a2 assms(4) a4 a5 a6 a7 a8]
  obtain rows' r' where
    rest: "add_edges libc junk rows1 i js' = Inr rows'" "rows' ! unat i = Some r'"
      "unat (row_size r') = 1 + length js'"
      "take (1 + length js') (adjacent_nodes r') = [j] @ js'"
      "length (adjacent_nodes r') = 16 * ((1 + length js') div 16 + 1)"
      "edge_capacities libc junk rows1 i js'
         = map (\<lambda>m. 16 * (m div 16 + 1)) [Suc 1..<Suc (1 + length js')]"
    by blast
  have run: "add_edges libc junk rows i js = Inr rows'"
    by (simp add: js step bindf_def rest(1))
  have "unat (row_size r') = unat (17 :: size_t)" using rest(3) by (simp add: len)
  then have sz: "row_size r' = 17" by (simp only: word_unat_eq_iff)
  have tk: "take 17 (adjacent_nodes r') = js" using rest(4) by (simp add: len js)
  have cap: "length (adjacent_nodes r') = 32" using rest(5) by (simp add: len)
  have "edge_capacities libc junk rows i js = 16 # replicate 14 16 @ [32, 32]"
    using rest(6) capacities_2_to_17 a2
    by (simp only: js edge_capacities.simps step sum.case option.case len) (simp add: r1_def)
  then have caps: "edge_capacities libc junk rows i js = replicate 15 16 @ [32, 32]"
    by (simp add: numeral_eq_Suc)
  show ?thesis using run rest(2) sz tk cap caps by blast
qed

theorem add_edge_17_times_witness:
  "granted 0 \<and> granted 1 \<and>
   (\<exists>rows' r.
      add_edges granted zero_junk [None, None, None] 1 (map of_nat [100..<117]) = Inr rows' \<and>
      rows' ! 1 = Some r \<and> row_size r = 17 \<and>
      take 17 (adjacent_nodes r) = map of_nat [100..<117] \<and>
      length (adjacent_nodes r) = 32 \<and>
      edge_capacities granted zero_junk [None, None, None] 1 (map of_nat [100..<117])
        = replicate 15 16 @ [32, 32])"
proof -
  have h: "unat (1::uint) < length [None, None, None :: row option]"
    "[None, None, None :: row option] ! unat (1::uint) = None"
    "length (map of_nat [100..<117] :: uint list) = 17"
    by simp_all
  have g: "granted 0" "granted 1" by (simp_all add: granted_def)
  from add_edge_17_times [where libc = granted and junk = zero_junk, OF h g] g
  show ?thesis by simp
qed
section \<open>Insertion and allocation failure\<close>

text \<open>
  Claim C10, for both list variants. \<open>linked_list_insert\<close> returns false exactly when the
  list is null or the index is beyond the size, and then leaves the state as it is. With a
  non-null list and an index in bounds, a null answer of the registered \<open>malloc\<close> is
  dereferenced (the fault \<open>NullDeref\<close>): the call does not return false. With a fresh
  block answered and a well-formed list, the call returns true and has linked that block into
  the list at the index, holding the value (\<open>linked_at\<close>); unless the size before is the
  greatest value of \<open>size_t\<close>, the list is well-formed afterwards and its values are the
  values before with the new value at the index.
\<close>

theorem insert_fails_only_on_bad_arguments:
  "((linked_list_insert s ll index d = Inr (False, s')) =
      ((ll = 0 \<or> linked_list_size s ll < index) \<and> s' = s)) \<and>
   ((linked_list_insert_l1 s ll index d = Inr (False, s')) =
      ((ll = 0 \<or> linked_list_size s ll < index) \<and> s' = s)) \<and>
   (ll \<noteq> 0 \<and> index \<le> linked_list_size s ll \<and> ll_malloc_fptr s \<noteq> None \<and> next_block s = 0 \<longrightarrow>
      linked_list_insert s ll index d = Inl NullDeref \<and>
      linked_list_insert_l1 s ll index d = Inl NullDeref) \<and>
   (index \<le> linked_list_size s ll \<and> fresh_answer s \<and> wf_l2 s ll \<longrightarrow>
      (\<exists>s1. linked_list_insert s ll index d = Inr (True, s1) \<and> linked_at s ll index d s1 \<and>
            (ll_size (lists s ll) \<noteq> SIZE_MAX \<longrightarrow>
               wf_l2 s1 ll \<and>
               ll_values s1 ll =
                 take (unat index) (ll_values s ll) @ d # drop (unat index) (ll_values s ll)))) \<and>
   (index \<le> linked_list_size s ll \<and> fresh_answer s \<and> wf_l1 s ll \<longrightarrow>
      (\<exists>s1. linked_list_insert_l1 s ll index d = Inr (True, s1) \<and> linked_at s ll index d s1 \<and>
            (ll_size (lists s ll) \<noteq> SIZE_MAX \<longrightarrow>
               wf_l1 s1 ll \<and>
               ll_values s1 ll =
                 take (unat index) (ll_values s ll) @ d # drop (unat index) (ll_values s ll))))"
  using insert_l2_false_iff [of s ll index d s'] insert_l1_false_iff [of s ll index d s']
    insert_l2_null_block [of ll index s d] insert_l1_null_block [of ll index s d]
    insert_l2_links [of s ll index d] insert_l1_links [of s ll index d]
  by blast

theorem insert_fails_only_on_bad_arguments_witness:
  "linked_list_insert list_of_5_7 0 0 6 = Inr (False, list_of_5_7) \<and>
   linked_list_insert_l1 list_of_5_7 1 3 6 = Inr (False, list_of_5_7) \<and>
   (1::size_t) \<le> linked_list_size list_of_5_exhausted 1 \<and>
   ll_malloc_fptr list_of_5_exhausted \<noteq> None \<and> next_block list_of_5_exhausted = 0 \<and>
   linked_list_insert list_of_5_exhausted 1 1 6 = Inl NullDeref \<and>
   linked_list_insert_l1 list_of_5_exhausted 1 1 6 = Inl NullDeref \<and>
   (1::size_t) \<le> linked_list_size list_of_5_7 1 \<and> fresh_answer list_of_5_7 \<and>
   wf_l2 list_of_5_7 1 \<and> wf_l1 list_of_5_7 1 \<and>
   ll_size (lists list_of_5_7 1) \<noteq> SIZE_MAX \<and> ll_values list_of_5_7 1 = [5, 7] \<and>
   (\<exists>s1. linked_list_insert list_of_5_7 1 1 6 = Inr (True, s1) \<and>
         linked_at list_of_5_7 1 1 6 s1 \<and> wf_l2 s1 1 \<and> ll_values s1 1 = [5, 6, 7]) \<and>
   (\<exists>s1. linked_list_insert_l1 list_of_5_7 1 1 6 = Inr (True, s1) \<and>
         linked_at list_of_5_7 1 1 6 s1 \<and> wf_l1 s1 1 \<and> ll_values s1 1 = [5, 6, 7])"
proof -
  have ok: "fresh_answer list_of_5_7" "wf_l1 list_of_5_7 1" "wf_l2 list_of_5_7 1"
    "linked_list_size list_of_5_7 1 = 2" "ll_size (lists list_of_5_7 1) \<noteq> SIZE_MAX"
    and v: "ll_values list_of_5_7 1 = [5, 7]"
    using list_of_5_7_ok by simp_all
  have ex: "ll_malloc_fptr list_of_5_exhausted \<noteq> None" "next_block list_of_5_exhausted = 0"
    "linked_list_size list_of_5_exhausted 1 = 1"
    using list_of_5_exhausted_ok by simp_all
  have one: "(1::nat) \<noteq> 0" by simp
  have a: "linked_list_insert list_of_5_7 0 0 6 = Inr (False, list_of_5_7)"
    using insert_fails_only_on_bad_arguments [of list_of_5_7 0 0 6 list_of_5_7] by simp
  have lt: "linked_list_size list_of_5_7 1 < 3" unfolding ok(4) by (simp add: word_less_nat_alt)
  have b: "linked_list_insert_l1 list_of_5_7 1 3 6 = Inr (False, list_of_5_7)"
    using insert_fails_only_on_bad_arguments [of list_of_5_7 1 3 6 list_of_5_7] lt by simp
  have le1: "(1::size_t) \<le> linked_list_size list_of_5_exhausted 1" unfolding ex(3) by simp
  have c: "linked_list_insert list_of_5_exhausted 1 1 6 = Inl NullDeref \<and>
           linked_list_insert_l1 list_of_5_exhausted 1 1 6 = Inl NullDeref"
    using insert_fails_only_on_bad_arguments [of list_of_5_exhausted 1 1 6 list_of_5_exhausted]
      one le1 ex(1,2) by blast
  have le2: "(1::size_t) \<le> linked_list_size list_of_5_7 1"
    unfolding ok(4) by (simp add: word_le_nat_alt)
  have mid: "take (unat (1::size_t)) [5, 7] @ 6 # drop (unat (1::size_t)) [5, 7] = [5, 6, 7 :: uint]"
    by simp
  from insert_fails_only_on_bad_arguments [of list_of_5_7 1 1 6 list_of_5_7] le2 ok(1,2,3,5)
  obtain s1 s2 where
    d1: "linked_list_insert list_of_5_7 1 1 6 = Inr (True, s1)" "linked_at list_of_5_7 1 1 6 s1"
      "wf_l2 s1 1"
      "ll_values s1 1 = take (unat (1::size_t)) (ll_values list_of_5_7 1) @ 6 #
                        drop (unat (1::size_t)) (ll_values list_of_5_7 1)" and
    d2: "linked_list_insert_l1 list_of_5_7 1 1 6 = Inr (True, s2)" "linked_at list_of_5_7 1 1 6 s2"
      "wf_l1 s2 1"
      "ll_values s2 1 = take (unat (1::size_t)) (ll_values list_of_5_7 1) @ 6 #
                        drop (unat (1::size_t)) (ll_values list_of_5_7 1)"
    by blast
  have "ll_values s1 1 = [5, 6, 7]" "ll_values s2 1 = [5, 6, 7]"
    using d1(4) d2(4) unfolding v mid by simp_all
  with d1 d2 have d: "(\<exists>s1. linked_list_insert list_of_5_7 1 1 6 = Inr (True, s1) \<and>
         linked_at list_of_5_7 1 1 6 s1 \<and> wf_l2 s1 1 \<and> ll_values s1 1 = [5, 6, 7]) \<and>
   (\<exists>s1. linked_list_insert_l1 list_of_5_7 1 1 6 = Inr (True, s1) \<and>
         linked_at list_of_5_7 1 1 6 s1 \<and> wf_l1 s1 1 \<and> ll_values s1 1 = [5, 6, 7])"
    by blast
  show ?thesis using a b c d le1 le2 ok ex v by blast
qed

end
